theory Spec2Isabelle
  imports Complex_Main "HOL-Library.Word"
begin

section \<open>The node graph of \<^verbatim>\<open>Set.h\<close>\<close>

text \<open>
  A \<^verbatim>\<open>TNode\<close> owns its two children and refers back to its parent without owning it.
  The owned child pointers \<^verbatim>\<open>LeftNode\<close> and \<^verbatim>\<open>RightNode\<close> are the recursion of the
  datatype (\<open>Null\<close> is \<^verbatim>\<open>nullptr\<close>); the identity of a node is the address \<^verbatim>\<open>new\<close> gave
  it, and the back pointer \<^verbatim>\<open>PreviousNode\<close> is such an address, or \<open>None\<close> for
  \<^verbatim>\<open>nullptr\<close>. The fields follow the constructor
  \<^verbatim>\<open>TNode(value, level, previousNode, leftNode, rightNode)\<close>, after the address.
  \<^verbatim>\<open>Level\<close> is a \<^verbatim>\<open>uint32_t\<close>.
\<close>

type_synonym addr = nat

datatype 'a TNode =
  Null
  | TNode addr 'a "32 word" "addr option" "'a TNode" "'a TNode"

text \<open>The pointer value of a node: what an iterator or a \<^verbatim>\<open>PreviousNode\<close> field stores.\<close>

fun ptr :: "'a TNode \<Rightarrow> addr option" where
  "ptr Null = None"
| "ptr (TNode a v l p le ri) = Some a"

text \<open>\<^verbatim>\<open>if (n != nullptr) n->PreviousNode = p;\<close>\<close>

fun set_prev :: "addr option \<Rightarrow> 'a TNode \<Rightarrow> 'a TNode" where
  "set_prev q Null = Null"
| "set_prev q (TNode a v l p le ri) = TNode a v l q le ri"

text \<open>
  Field reads and writes through a pointer that the source does not test: on \<^verbatim>\<open>nullptr\<close>
  the behaviour is undefined, which is the result \<open>None\<close>.
\<close>

fun get_Value :: "'a TNode \<Rightarrow> 'a option" where
  "get_Value Null = None"
| "get_Value (TNode a v l p le ri) = Some v"

fun get_RightNode :: "'a TNode \<Rightarrow> 'a TNode option" where
  "get_RightNode Null = None"
| "get_RightNode (TNode a v l p le ri) = Some ri"

fun put_RightNode :: "'a TNode \<Rightarrow> 'a TNode \<Rightarrow> 'a TNode option" where
  "put_RightNode Null r = None"
| "put_RightNode (TNode a v l p le ri) r = Some (TNode a v l p le r)"

subsection \<open>Skew and Split\<close>

text \<open>
  Both rotations build two new nodes and delete the two old ones. The free store is the
  counter \<open>fr\<close>: \<^verbatim>\<open>new\<close> returns \<open>fr\<close> and moves the counter on, so a new node never has
  the address of a live one. The outer node gets \<open>fr\<close>, the inner one \<open>fr + 1\<close>.
  The assignments to \<^verbatim>\<open>PreviousNode\<close> after the construction are the \<open>set_prev\<close> calls
  (guarded by a null test in the source) and the parent field of the inner node (unguarded).
\<close>

fun Skew :: "'a TNode \<Rightarrow> addr \<Rightarrow> 'a TNode \<times> addr" where
  "Skew Null fr = (Null, fr)"
| "Skew (TNode a v l p Null ri) fr = (TNode a v l p Null ri, fr)"
| "Skew (TNode a v l p (TNode la lv ll lp lle lri) ri) fr =
     (if l \<noteq> ll then (TNode a v l p (TNode la lv ll lp lle lri) ri, fr)
      else
        (TNode fr lv ll p
           (set_prev (Some fr) lle)
           (TNode (fr + 1) v l (Some fr)
              (set_prev (Some (fr + 1)) lri)
              (set_prev (Some (fr + 1)) ri)),
         fr + 2))"

fun Split :: "'a TNode \<Rightarrow> addr \<Rightarrow> 'a TNode \<times> addr" where
  "Split Null fr = (Null, fr)"
| "Split (TNode a v l p le Null) fr = (TNode a v l p le Null, fr)"
| "Split (TNode a v l p le (TNode ra rv rl rp rle Null)) fr =
     (TNode a v l p le (TNode ra rv rl rp rle Null), fr)"
| "Split (TNode a v l p le (TNode ra rv rl rp rle (TNode xa xv xl xp xle xri))) fr =
     (if l \<noteq> xl then (TNode a v l p le (TNode ra rv rl rp rle (TNode xa xv xl xp xle xri)), fr)
      else
        (TNode fr rv (rl + 1) p
           (TNode (fr + 1) v l (Some fr)
              (set_prev (Some (fr + 1)) le)
              (set_prev (Some (fr + 1)) rle))
           (set_prev (Some fr) (TNode xa xv xl xp xle xri)),
         fr + 2))"

subsection \<open>Insert\<close>

text \<open>
  \<^verbatim>\<open>Insert\<close> is a member function: besides the subtree it changes \<^verbatim>\<open>Size_\<close> and
  allocates. The pair \<open>(sz, fr)\<close> is \<^verbatim>\<open>Size_\<close> and the free store counter. \<^verbatim>\<open>Size_\<close>
  is a \<^verbatim>\<open>size_t\<close>; it is a \<open>nat\<close> here. \<^verbatim>\<open>++Size_\<close> comes with a new live node, and
  there are fewer live nodes than values of \<^verbatim>\<open>size_t\<close>, so it does not wrap; the
  wrap-around of \<^verbatim>\<open>--Size_\<close> at 0 is written out in \<open>Erase\<close> (64 bits).
  The element type with its \<^verbatim>\<open>operator<\<close> is a linear order. The two comparisons are two
  separate \<^verbatim>\<open>if\<close> statements, as in the source.
\<close>

fun Insert :: "'a::linorder TNode \<Rightarrow> 'a \<Rightarrow> nat \<times> addr \<Rightarrow> 'a TNode \<times> nat \<times> addr" where
  "Insert Null x (sz, fr) = (TNode fr x 1 None Null Null, (sz + 1, fr + 1))"
| "Insert (TNode a v l p le ri) x st =
     (case (if x < v
            then (case Insert le x st of (le', st') \<Rightarrow> (set_prev (Some a) le', st'))
            else (le, st)) of
        (le1, st1) \<Rightarrow>
     (case (if v < x
            then (case Insert ri x st1 of (ri', st') \<Rightarrow> (set_prev (Some a) ri', st'))
            else (ri, st1)) of
        (ri1, (sz2, fr2)) \<Rightarrow>
     (case Skew (TNode a v l p le1 ri1) fr2 of
        (c1, fr3) \<Rightarrow>
     (case Split c1 fr3 of
        (c2, fr4) \<Rightarrow> (c2, (sz2, fr4))))))"

subsection \<open>Erase\<close>

fun DecreaseLevel :: "'a TNode \<Rightarrow> 'a TNode option" where
  "DecreaseLevel Null = None"
| "DecreaseLevel (TNode a v l p (TNode la lv ll lp lle lri) (TNode ra rv rl rp rle rri)) =
     (let expectedLevel = min ll rl + 1 in
      if expectedLevel < l
      then Some (TNode a v expectedLevel p (TNode la lv ll lp lle lri)
                   (if expectedLevel < rl then TNode ra rv expectedLevel rp rle rri
                    else TNode ra rv rl rp rle rri))
      else Some (TNode a v l p (TNode la lv ll lp lle lri) (TNode ra rv rl rp rle rri)))"
| "DecreaseLevel (TNode a v l p le ri) = Some (TNode a v l p le ri)"

text \<open>The loops of \<^verbatim>\<open>Predecessor\<close> and \<^verbatim>\<open>Successor\<close>, from a node that is not null.\<close>

fun rightmost :: "'a TNode \<Rightarrow> 'a TNode option" where
  "rightmost Null = None"
| "rightmost (TNode a v l p le Null) = Some (TNode a v l p le Null)"
| "rightmost (TNode a v l p le (TNode ra rv rl rp rle rri)) = rightmost (TNode ra rv rl rp rle rri)"

fun leftmost :: "'a TNode \<Rightarrow> 'a TNode option" where
  "leftmost Null = None"
| "leftmost (TNode a v l p Null ri) = Some (TNode a v l p Null ri)"
| "leftmost (TNode a v l p (TNode la lv ll lp lle lri) ri) = leftmost (TNode la lv ll lp lle lri)"

fun Predecessor :: "'a TNode \<Rightarrow> 'a TNode option" where
  "Predecessor Null = None"
| "Predecessor (TNode a v l p le ri) = rightmost le"

fun Successor :: "'a TNode \<Rightarrow> 'a TNode option" where
  "Successor Null = None"
| "Successor (TNode a v l p le ri) = leftmost ri"

fun IsLeaf :: "'a TNode \<Rightarrow> bool" where
  "IsLeaf (TNode a v l p Null Null) = True"
| "IsLeaf t = False"

text \<open>
  The tail of \<^verbatim>\<open>Erase\<close> (lines 354 to 362): \<^verbatim>\<open>DecreaseLevel\<close>, three times \<^verbatim>\<open>Skew\<close>,
  twice \<^verbatim>\<open>Split\<close>.
\<close>

definition Erase_tail :: "'a TNode \<Rightarrow> addr \<Rightarrow> ('a TNode \<times> addr) option" where
  "Erase_tail c fr =
     (case DecreaseLevel c of None \<Rightarrow> None | Some c1 \<Rightarrow>
      (case Skew c1 fr of (c2, fr2) \<Rightarrow>
      (case get_RightNode c2 of None \<Rightarrow> None | Some r2 \<Rightarrow>
      (case Skew r2 fr2 of (r3, fr3) \<Rightarrow>
      (case put_RightNode c2 r3 of None \<Rightarrow> None | Some c3 \<Rightarrow>
      (case (case r3 of
               Null \<Rightarrow> Some (c3, fr3)
             | TNode ra rv rl rp rle rri \<Rightarrow>
                 (case Skew rri fr3 of (rr', fr') \<Rightarrow>
                    (case put_RightNode c3 (TNode ra rv rl rp rle rr') of
                       None \<Rightarrow> None | Some c' \<Rightarrow> Some (c', fr')))) of
         None \<Rightarrow> None | Some (c4, fr4) \<Rightarrow>
      (case Split c4 fr4 of (c5, fr5) \<Rightarrow>
      (case get_RightNode c5 of None \<Rightarrow> None | Some r5 \<Rightarrow>
      (case Split r5 fr5 of (r6, fr6) \<Rightarrow>
      (case put_RightNode c5 r6 of None \<Rightarrow> None | Some c6 \<Rightarrow> Some (c6, fr6)))))))))))"

fun Erase :: "'a::linorder TNode \<Rightarrow> 'a \<Rightarrow> nat \<times> addr \<Rightarrow> ('a TNode \<times> nat \<times> addr) option" where
  "Erase Null x st = Some (Null, st)"
| "Erase (TNode a v l p le ri) x (sz, fr) =
     (if x < v then
        (case Erase le x (sz, fr) of None \<Rightarrow> None | Some (le', (sz', fr')) \<Rightarrow>
           (case Erase_tail (TNode a v l p (set_prev (Some a) le') ri) fr' of
              None \<Rightarrow> None | Some (c, fr'') \<Rightarrow> Some (c, (sz', fr''))))
      else if v < x then
        (case Erase ri x (sz, fr) of None \<Rightarrow> None | Some (ri', (sz', fr')) \<Rightarrow>
           (case Erase_tail (TNode a v l p le (set_prev (Some a) ri')) fr' of
              None \<Rightarrow> None | Some (c, fr'') \<Rightarrow> Some (c, (sz', fr''))))
      else if IsLeaf (TNode a v l p le ri) then
        Some (Null, ((if sz = 0 then 2 ^ 64 - 1 else sz - 1), fr))
      else
        (case le of
           Null \<Rightarrow>
             (case Successor (TNode a v l p le ri) of None \<Rightarrow> None | Some s \<Rightarrow>
             (case get_Value s of None \<Rightarrow> None | Some successorValue \<Rightarrow>
             (case Erase ri successorValue (sz, fr) of None \<Rightarrow> None | Some (ri', (sz', fr')) \<Rightarrow>
             (case Erase_tail (TNode a successorValue l p le (set_prev (Some a) ri')) fr' of
                None \<Rightarrow> None | Some (c, fr'') \<Rightarrow> Some (c, (sz', fr''))))))
         | TNode la lv ll lp lle lri \<Rightarrow>
             (case Predecessor (TNode a v l p le ri) of None \<Rightarrow> None | Some s \<Rightarrow>
             (case get_Value s of None \<Rightarrow> None | Some predecessorValue \<Rightarrow>
             (case Erase le predecessorValue (sz, fr) of None \<Rightarrow> None | Some (le', (sz', fr')) \<Rightarrow>
             (case Erase_tail (TNode a predecessorValue l p (set_prev (Some a) le') ri) fr' of
                None \<Rightarrow> None | Some (c, fr'') \<Rightarrow> Some (c, (sz', fr''))))))))"

section \<open>The iterator\<close>

text \<open>
  An iterator holds a pointer to its set and a pointer to a node (\<^verbatim>\<open>nullptr\<close> at the end).
  Its steps read nodes through pointers, among them \<^verbatim>\<open>PreviousNode\<close>. Reading through a
  pointer is \<open>node_at\<close>: the live node of the tree with that address; a pointer to no live
  node (a deleted one) gives \<open>None\<close>, undefined behaviour, as a null pointer does.
\<close>

record TIterator =
  Set_ptr :: addr
  IteratorNode :: "addr option"

fun inorder :: "'a TNode \<Rightarrow> 'a list" where
  "inorder Null = []"
| "inorder (TNode a v l p le ri) = inorder le @ v # inorder ri"

fun node_at :: "'a TNode \<Rightarrow> addr \<Rightarrow> 'a TNode option" where
  "node_at Null x = None"
| "node_at (TNode a v l p le ri) x =
     (if x = a then Some (TNode a v l p le ri)
      else (case node_at le x of Some n \<Rightarrow> Some n | None \<Rightarrow> node_at ri x))"

text \<open>
  The loop of \<^verbatim>\<open>operator++\<close> with the assignment after it:
  \<^verbatim>\<open>while (n->PreviousNode != nullptr && n->PreviousNode->Value < n->Value) n = n->PreviousNode;
  n = n->PreviousNode;\<close>
  The result is the new pointer. Every round moves to a live node of smaller value, so the
  loop ends on every tree.
\<close>

function incr_loop :: "'a::linorder TNode \<Rightarrow> 'a TNode \<Rightarrow> addr option option" where
  "incr_loop rt Null = None"
| "incr_loop rt (TNode a v l p le ri) =
     (case p of
        None \<Rightarrow> Some None
      | Some pa \<Rightarrow>
          (case node_at rt pa of
             None \<Rightarrow> None
           | Some Null \<Rightarrow> None
           | Some (TNode b pv pl pp ple pri) \<Rightarrow>
               if pv < v then incr_loop rt (TNode b pv pl pp ple pri) else Some (Some pa)))"
  by pat_completeness auto
termination
proof (relation "measure (\<lambda>(rt, n). case n of Null \<Rightarrow> 0
         | TNode a v l p le ri \<Rightarrow> length (filter (\<lambda>y. y < v) (inorder rt)))")
  show "wf (measure (\<lambda>(rt :: 'a TNode, n). case n of Null \<Rightarrow> 0
         | TNode a v l p le ri \<Rightarrow> length (filter (\<lambda>y. y < v) (inorder rt))))"
    by simp
next
  fix rt :: "'a TNode" and a v l p le ri pa n b pv pl pp ple pri
  assume at: "node_at rt pa = Some n" and n: "n = TNode b pv pl pp ple pri" and lt: "pv < v"
  have mem: "set (inorder m) \<subseteq> set (inorder t)" if "node_at t x = Some m"
    for t m :: "'a TNode" and x
    using that by (induction t) (auto split: if_splits option.splits)
  have mono: "length (filter (\<lambda>y. y < pv) ys) \<le> length (filter (\<lambda>y. y < v) ys)"
    for ys :: "'a list"
    using lt by (induction ys) auto
  have grow: "length (filter (\<lambda>y. y < pv) xs) < length (filter (\<lambda>y. y < v) xs)"
    if "pv \<in> set xs" for xs :: "'a list"
    using that
  proof (induction xs)
    case Nil
    then show ?case by simp
  next
    case (Cons y ys)
    show ?case
    proof (cases "y = pv")
      case True
      then show ?thesis using lt mono [of ys] by simp
    next
      case False
      then show ?thesis using Cons lt by auto
    qed
  qed
  have "pv \<in> set (inorder rt)"
    using mem [OF at] n by auto
  then show "((rt, TNode b pv pl pp ple pri), (rt, TNode a v l p le ri))
      \<in> measure (\<lambda>(rt, n). case n of Null \<Rightarrow> 0
         | TNode a v l p le ri \<Rightarrow> length (filter (\<lambda>y. y < v) (inorder rt)))"
    using grow by simp
qed

text \<open>The loop of \<^verbatim>\<open>operator--\<close>, with the comparison the other way round.\<close>

function decr_loop :: "'a::linorder TNode \<Rightarrow> 'a TNode \<Rightarrow> addr option option" where
  "decr_loop rt Null = None"
| "decr_loop rt (TNode a v l p le ri) =
     (case p of
        None \<Rightarrow> Some None
      | Some pa \<Rightarrow>
          (case node_at rt pa of
             None \<Rightarrow> None
           | Some Null \<Rightarrow> None
           | Some (TNode b pv pl pp ple pri) \<Rightarrow>
               if v < pv then decr_loop rt (TNode b pv pl pp ple pri) else Some (Some pa)))"
  by pat_completeness auto
termination
proof (relation "measure (\<lambda>(rt, n). case n of Null \<Rightarrow> 0
         | TNode a v l p le ri \<Rightarrow> length (filter (\<lambda>y. v < y) (inorder rt)))")
  show "wf (measure (\<lambda>(rt :: 'a TNode, n). case n of Null \<Rightarrow> 0
         | TNode a v l p le ri \<Rightarrow> length (filter (\<lambda>y. v < y) (inorder rt))))"
    by simp
next
  fix rt :: "'a TNode" and a v l p le ri pa n b pv pl pp ple pri
  assume at: "node_at rt pa = Some n" and n: "n = TNode b pv pl pp ple pri" and lt: "v < pv"
  have mem: "set (inorder m) \<subseteq> set (inorder t)" if "node_at t x = Some m"
    for t m :: "'a TNode" and x
    using that by (induction t) (auto split: if_splits option.splits)
  have mono: "length (filter (\<lambda>y. pv < y) ys) \<le> length (filter (\<lambda>y. v < y) ys)"
    for ys :: "'a list"
    using lt by (induction ys) auto
  have grow: "length (filter (\<lambda>y. pv < y) xs) < length (filter (\<lambda>y. v < y) xs)"
    if "pv \<in> set xs" for xs :: "'a list"
    using that
  proof (induction xs)
    case Nil
    then show ?case by simp
  next
    case (Cons y ys)
    show ?case
    proof (cases "y = pv")
      case True
      then show ?thesis using lt mono [of ys] by simp
    next
      case False
      then show ?thesis using Cons lt by auto
    qed
  qed
  have "pv \<in> set (inorder rt)"
    using mem [OF at] n by auto
  then show "((rt, TNode b pv pl pp ple pri), (rt, TNode a v l p le ri))
      \<in> measure (\<lambda>(rt, n). case n of Null \<Rightarrow> 0
         | TNode a v l p le ri \<Rightarrow> length (filter (\<lambda>y. v < y) (inorder rt)))"
    using grow by simp
qed

section \<open>The container\<close>

text \<open>
  The state of a \<^verbatim>\<open>Set\<close> object: \<^verbatim>\<open>Root_\<close>, \<^verbatim>\<open>Size_\<close>, and with them the counter of
  the free store that its member functions allocate from.
\<close>

record 'a Set =
  Root :: "'a TNode"
  Size :: nat
  Fresh :: addr

text \<open>\<^verbatim>\<open>Set() = default\<close>: the member initialisers. The free store may start anywhere.\<close>

definition Set_default :: "addr \<Rightarrow> 'a Set" where
  "Set_default fr = \<lparr>Root = Null, Size = 0, Fresh = fr\<rparr>"

definition size_Set :: "'a Set \<Rightarrow> nat" where
  "size_Set S = Size S"

definition empty_Set :: "'a Set \<Rightarrow> bool" where
  "empty_Set S = (Size S = 0)"

definition insert_Set :: "'a::linorder Set \<Rightarrow> 'a \<Rightarrow> 'a Set" where
  "insert_Set S x =
     (case Insert (Root S) x (Size S, Fresh S) of
        (t, (sz, fr)) \<Rightarrow> \<lparr>Root = t, Size = sz, Fresh = fr\<rparr>)"

definition erase_Set :: "'a::linorder Set \<Rightarrow> 'a \<Rightarrow> 'a Set option" where
  "erase_Set S x =
     (case Erase (Root S) x (Size S, Fresh S) of
        None \<Rightarrow> None
      | Some (t, (sz, fr)) \<Rightarrow> Some \<lparr>Root = t, Size = sz, Fresh = fr\<rparr>)"

text \<open>
  The states that a program can reach: an empty set, then any calls of \<^verbatim>\<open>insert\<close> and
  \<^verbatim>\<open>erase\<close>. A call of \<^verbatim>\<open>erase\<close> that ran into undefined behaviour would reach nothing.
\<close>

inductive reachable :: "'a::linorder Set \<Rightarrow> bool" where
  reach_default: "reachable (Set_default fr)"
| reach_insert: "reachable S \<Longrightarrow> reachable (insert_Set S x)"
| reach_erase: "reachable S \<Longrightarrow> erase_Set S x = Some S' \<Longrightarrow> reachable S'"

text \<open>A program as the list of its calls, run from the left.\<close>

datatype 'a call = Ins 'a | Del 'a

fun run :: "'a::linorder call list \<Rightarrow> 'a Set \<Rightarrow> 'a Set option" where
  "run [] S = Some S"
| "run (Ins x # cs) S = run cs (insert_Set S x)"
| "run (Del x # cs) S = (case erase_Set S x of None \<Rightarrow> None | Some S' \<Rightarrow> run cs S')"

subsection \<open>The AA-tree level rules\<close>

text \<open>An absent subtree counts as level 0.\<close>

fun level_of :: "'a TNode \<Rightarrow> 32 word" where
  "level_of Null = 0"
| "level_of (TNode a v l p le ri) = l"

fun AA_levels :: "'a TNode \<Rightarrow> bool" where
  "AA_levels Null = True"
| "AA_levels (TNode a v l p le ri) =
     (level_of le + 1 = l \<and>
      (level_of ri = l \<or> level_of ri + 1 = l) \<and>
      (case ri of Null \<Rightarrow> True | TNode ra rv rl rp rle rri \<Rightarrow> level_of rri \<noteq> l) \<and>
      (if IsLeaf (TNode a v l p le ri) then l = 1 else True) \<and>
      AA_levels le \<and> AA_levels ri)"

fun height :: "'a TNode \<Rightarrow> nat" where
  "height Null = 0"
| "height (TNode a v l p le ri) = Suc (max (height le) (height ri))"

subsection \<open>Iterator steps and queries\<close>

text \<open>
  The member functions below take the state \<open>S\<close> of the set that the iterator points to
  (its nodes are the memory they read) and, where they make an iterator, the address
  \<open>this\<close> of that set.
\<close>

definition operator_incr :: "'a::linorder Set \<Rightarrow> TIterator \<Rightarrow> TIterator option" where
  "operator_incr S it =
     (case IteratorNode it of
        None \<Rightarrow> None
      | Some x \<Rightarrow>
          (case node_at (Root S) x of
             None \<Rightarrow> None
           | Some n \<Rightarrow>
               (case get_RightNode n of
                  None \<Rightarrow> None
                | Some (TNode ra rv rl rp rle rri) \<Rightarrow>
                    (case Successor n of
                       None \<Rightarrow> None
                     | Some m \<Rightarrow> Some (it\<lparr>IteratorNode := ptr m\<rparr>))
                | Some Null \<Rightarrow>
                    (case incr_loop (Root S) n of
                       None \<Rightarrow> None
                     | Some q \<Rightarrow> Some (it\<lparr>IteratorNode := q\<rparr>)))))"

definition operator_decr :: "'a::linorder Set \<Rightarrow> TIterator \<Rightarrow> TIterator option" where
  "operator_decr S it =
     (case IteratorNode it of
        None \<Rightarrow>
          (case Root S of
             Null \<Rightarrow> Some (it\<lparr>IteratorNode := None\<rparr>)
           | TNode a v l p le ri \<Rightarrow>
               (case rightmost (Root S) of
                  None \<Rightarrow> None
                | Some m \<Rightarrow> Some (it\<lparr>IteratorNode := ptr m\<rparr>)))
      | Some x \<Rightarrow>
          (case node_at (Root S) x of
             None \<Rightarrow> None
           | Some Null \<Rightarrow> None
           | Some (TNode a v l p (TNode la lv ll lp lle lri) ri) \<Rightarrow>
               (case Predecessor (TNode a v l p (TNode la lv ll lp lle lri) ri) of
                  None \<Rightarrow> None
                | Some m \<Rightarrow> Some (it\<lparr>IteratorNode := ptr m\<rparr>))
           | Some (TNode a v l p Null ri) \<Rightarrow>
               (case decr_loop (Root S) (TNode a v l p Null ri) of
                  None \<Rightarrow> None
                | Some q \<Rightarrow> Some (it\<lparr>IteratorNode := q\<rparr>))))"

definition operator_star :: "'a Set \<Rightarrow> TIterator \<Rightarrow> 'a option" where
  "operator_star S it =
     (case IteratorNode it of
        None \<Rightarrow> None
      | Some x \<Rightarrow> (case node_at (Root S) x of None \<Rightarrow> None | Some n \<Rightarrow> get_Value n))"

definition operator_eq :: "TIterator \<Rightarrow> TIterator \<Rightarrow> bool" where
  "operator_eq it iter = (Set_ptr it = Set_ptr iter \<and> IteratorNode it = IteratorNode iter)"

definition operator_neq :: "TIterator \<Rightarrow> TIterator \<Rightarrow> bool" where
  "operator_neq it iter = (Set_ptr it \<noteq> Set_ptr iter \<or> IteratorNode it \<noteq> IteratorNode iter)"

definition end_Set :: "addr \<Rightarrow> TIterator" where
  "end_Set this = \<lparr>Set_ptr = this, IteratorNode = None\<rparr>"

definition begin_Set :: "addr \<Rightarrow> 'a Set \<Rightarrow> TIterator option" where
  "begin_Set this S =
     (case Root S of
        Null \<Rightarrow> Some (end_Set this)
      | TNode a v l p le ri \<Rightarrow>
          (case leftmost (Root S) of
             None \<Rightarrow> None
           | Some m \<Rightarrow> Some \<lparr>Set_ptr = this, IteratorNode = ptr m\<rparr>))"

text \<open>The loop of \<^verbatim>\<open>lower_bound\<close> from \<^verbatim>\<open>currentNode\<close>, and the return after it.\<close>

fun lower_bound_loop ::
  "addr \<Rightarrow> 'a::linorder Set \<Rightarrow> 'a TNode \<Rightarrow> 'a \<Rightarrow> TIterator option" where
  "lower_bound_loop this S Null w = Some \<lparr>Set_ptr = this, IteratorNode = None\<rparr>"
| "lower_bound_loop this S (TNode a v l p le ri) w =
     (if v < w then
        (case ri of
           Null \<Rightarrow> operator_incr S \<lparr>Set_ptr = this, IteratorNode = Some a\<rparr>
         | TNode ra rv rl rp rle rri \<Rightarrow> lower_bound_loop this S ri w)
      else
        (case le of
           Null \<Rightarrow> Some \<lparr>Set_ptr = this, IteratorNode = Some a\<rparr>
         | TNode la lv ll lp lle lri \<Rightarrow>
             if w < v then lower_bound_loop this S le w
             else Some \<lparr>Set_ptr = this, IteratorNode = Some a\<rparr>))"

definition lower_bound :: "addr \<Rightarrow> 'a::linorder Set \<Rightarrow> 'a \<Rightarrow> TIterator option" where
  "lower_bound this S w = lower_bound_loop this S (Root S) w"

definition find_Set :: "addr \<Rightarrow> 'a::linorder Set \<Rightarrow> 'a \<Rightarrow> TIterator option" where
  "find_Set this S w =
     (case lower_bound this S w of
        None \<Rightarrow> None
      | Some iter \<Rightarrow>
          if operator_neq iter (end_Set this)
          then (case operator_star S iter of
                  None \<Rightarrow> None
                | Some y \<Rightarrow> if \<not> y < w \<and> \<not> w < y then Some iter else Some (end_Set this))
          else Some (end_Set this))"

definition levels_ok :: "'a Set \<Rightarrow> bool" where
  "levels_ok S = AA_levels (Root S)"

text \<open>The balance bound of the specification: the ceiling of \<open>2 * log\<^sub>2 (size + 1)\<close>.\<close>

definition height_bound :: "nat \<Rightarrow> int" where
  "height_bound n = \<lceil>2 * log 2 (real (n + 1))\<rceil>"

definition height_ok :: "'a Set \<Rightarrow> bool" where
  "height_ok S = (int (height (Root S)) \<le> height_bound (size_Set S))"

subsection \<open>What the claims speak about\<close>

text \<open>The nodes of a tree in in-order, each as its address and its value.\<close>

fun entries :: "'a TNode \<Rightarrow> (addr \<times> 'a) list" where
  "entries Null = []"
| "entries (TNode a v l p le ri) = entries le @ (a, v) # entries ri"

definition addrs :: "'a TNode \<Rightarrow> addr list" where
  "addrs t = map fst (entries t)"

text \<open>
  Parent pointers agree with the child pointers: the node at the top of the tree has the
  parent pointer \<open>q\<close>, and each child of a node points back to that node.
\<close>

fun parents_ok :: "addr option \<Rightarrow> 'a TNode \<Rightarrow> bool" where
  "parents_ok q Null = True"
| "parents_ok q (TNode a v l p le ri) =
     (p = q \<and> parents_ok (Some a) le \<and> parents_ok (Some a) ri)"

text \<open>
  The live nodes of a subtree have different addresses, all of them handed out already.
\<close>

definition allocated :: "addr \<Rightarrow> 'a TNode \<Rightarrow> bool" where
  "allocated fr t = (distinct (addrs t) \<and> set (addrs t) \<subseteq> {..<fr})"

text \<open>The number of nodes that can be reached from a node through child pointers.\<close>

fun count_nodes :: "'a TNode \<Rightarrow> nat" where
  "count_nodes Null = 0"
| "count_nodes (TNode a v l p le ri) = Suc (count_nodes le + count_nodes ri)"

text \<open>The set of scenario 4 of the specification: 1, 3, 5 and 8 inserted into an empty set.\<close>

definition example_set :: "nat Set" where
  "example_set = insert_Set (insert_Set (insert_Set (insert_Set (Set_default 0) 1) 3) 5) 8"

text \<open>The iterator of the set at \<open>this\<close> that points to the node at in-order position \<open>i\<close>.\<close>

definition iter_at :: "addr \<Rightarrow> 'a Set \<Rightarrow> nat \<Rightarrow> TIterator" where
  "iter_at this S i = \<lparr>Set_ptr = this, IteratorNode = Some (addrs (Root S) ! i)\<rparr>"

text \<open>
  The calls of a program that changed the set: an \<^verbatim>\<open>insert\<close> of a value that was not in
  the set, an \<^verbatim>\<open>erase\<close> of a value that was.
\<close>

fun new_inserts :: "'a::linorder call list \<Rightarrow> 'a Set \<Rightarrow> nat" where
  "new_inserts [] S = 0"
| "new_inserts (Ins x # cs) S =
     (if x \<in> set (inorder (Root S)) then 0 else 1) + new_inserts cs (insert_Set S x)"
| "new_inserts (Del x # cs) S =
     (case erase_Set S x of None \<Rightarrow> 0 | Some S' \<Rightarrow> new_inserts cs S')"

fun real_erases :: "'a::linorder call list \<Rightarrow> 'a Set \<Rightarrow> nat" where
  "real_erases [] S = 0"
| "real_erases (Ins x # cs) S = real_erases cs (insert_Set S x)"
| "real_erases (Del x # cs) S =
     (case erase_Set S x of
        None \<Rightarrow> 0
      | Some S' \<Rightarrow> (if x \<in> set (inorder (Root S)) then 1 else 0) + real_erases cs S')"

subsection \<open>Notions used in the proofs\<close>

text \<open>New addresses come from the free store.\<close>

definition grown :: "addr \<Rightarrow> 'a TNode \<Rightarrow> addr \<Rightarrow> 'a TNode \<Rightarrow> bool" where
  "grown fr t fr' t' = (fr \<le> fr' \<and> (\<forall>x \<in> set (addrs t'). x \<in> set (addrs t) \<or> fr \<le> x))"

text \<open>
  A step on a subtree that keeps what the proofs follow: the in-order values, that the
  subtree is not null, the parent pointers, and the addresses being distinct and allocated.
\<close>

definition preserves :: "('a TNode \<Rightarrow> addr \<Rightarrow> 'a TNode \<times> addr) \<Rightarrow> bool" where
  "preserves f =
     (\<forall>t fr t' fr'. f t fr = (t', fr') \<longrightarrow>
        inorder t' = inorder t \<and> (t \<noteq> Null \<longrightarrow> t' \<noteq> Null) \<and>
        (\<forall>q. parents_ok q t \<longrightarrow> parents_ok q t') \<and>
        (allocated fr t \<longrightarrow> allocated fr' t' \<and> grown fr t fr' t'))"

text \<open>A step applied to the right child, as in \<^verbatim>\<open>n->RightNode = Skew(n->RightNode)\<close>.\<close>

definition on_right :: "('a TNode \<Rightarrow> addr \<Rightarrow> 'a TNode \<times> addr) \<Rightarrow> 'a TNode \<Rightarrow> addr \<Rightarrow> 'a TNode \<times> addr" where
  "on_right f t fr =
     (case t of
        Null \<Rightarrow> (Null, fr)
      | TNode a v l p le ri \<Rightarrow> (case f ri fr of (r', fr') \<Rightarrow> (TNode a v l p le r', fr')))"

text \<open>One step after another.\<close>

definition and_then ::
  "('a TNode \<Rightarrow> addr \<Rightarrow> 'a TNode \<times> addr) \<Rightarrow> ('a TNode \<Rightarrow> addr \<Rightarrow> 'a TNode \<times> addr) \<Rightarrow>
   'a TNode \<Rightarrow> addr \<Rightarrow> 'a TNode \<times> addr" where
  "and_then f g t fr = (case f t fr of (t1, fr1) \<Rightarrow> g t1 fr1)"

text \<open>\<^verbatim>\<open>DecreaseLevel\<close> as a step on a node that is not null.\<close>

definition lower_level :: "'a TNode \<Rightarrow> addr \<Rightarrow> 'a TNode \<times> addr" where
  "lower_level t fr = (case DecreaseLevel t of None \<Rightarrow> (t, fr) | Some t' \<Rightarrow> (t', fr))"

text \<open>The six steps of the tail of \<^verbatim>\<open>Erase\<close>, in the order of the source.\<close>

definition tail_steps :: "'a TNode \<Rightarrow> addr \<Rightarrow> 'a TNode \<times> addr" where
  "tail_steps =
     and_then lower_level (and_then Skew (and_then (on_right Skew)
       (and_then (on_right (on_right Skew)) (and_then Split (on_right Split)))))"

text \<open>
  What a call \<open>Erase t x (sz, fr)\<close> with the result \<open>(t', (sz', fr'))\<close> establishes on a
  well-formed subtree \<open>t\<close> whose parent pointer is \<open>q\<close>.
\<close>

definition erased ::
  "addr option \<Rightarrow> 'a::linorder TNode \<Rightarrow> 'a \<Rightarrow> nat \<Rightarrow> addr \<Rightarrow> 'a TNode \<Rightarrow> nat \<Rightarrow> addr \<Rightarrow> bool" where
  "erased q t x sz fr t' sz' fr' =
     (parents_ok q t' \<and> allocated fr' t' \<and> grown fr t fr' t' \<and>
      sorted_wrt (<) (inorder t') \<and> set (inorder t') = set (inorder t) - {x} \<and>
      (length (inorder t) \<le> sz \<longrightarrow> sz' + length (inorder t) = sz + length (inorder t')))"

text \<open>A subtree sits in the tree: its nodes are read at their addresses.\<close>

definition sits_in :: "'a TNode \<Rightarrow> 'a TNode \<Rightarrow> bool" where
  "sits_in rt t = (\<forall>x\<in>set (addrs t). node_at rt x = node_at t x)"

text \<open>
  The invariant of the reachable states: parent pointers agree with child pointers, live
  nodes have distinct allocated addresses, the values ascend strictly in in-order, and
  \<^verbatim>\<open>Size_\<close> counts the nodes.
\<close>

definition consistent :: "'a::linorder Set \<Rightarrow> bool" where
  "consistent S =
     (parents_ok None (Root S) \<and> allocated (Fresh S) (Root S) \<and>
      sorted_wrt (<) (inorder (Root S)) \<and> Size S = length (inorder (Root S)))"

section \<open>Properties\<close>

subsection \<open>Skew and Split\<close>

lemma inorder_entries: "inorder t = map snd (entries t)"
  by (induction t) auto

lemma entries_set_prev [simp]: "entries (set_prev q t) = entries t"
  by (cases t) auto

lemma inorder_set_prev [simp]: "inorder (set_prev q t) = inorder t"
  by (cases t) auto

lemma addrs_simps [simp]:
  "addrs Null = []"
  "addrs (TNode a v l p le ri) = addrs le @ a # addrs ri"
  "addrs (set_prev q t) = addrs t"
  by (simp_all add: addrs_def)

lemma parents_ok_set_prev: "parents_ok q t \<Longrightarrow> parents_ok q' (set_prev q' t)"
  by (cases t) auto

lemma Skew_entries: "Skew t fr = (t', fr') \<Longrightarrow> inorder t' = inorder t"
  by (induction t fr rule: Skew.induct) (auto split: if_splits)

lemma Split_entries: "Split t fr = (t', fr') \<Longrightarrow> inorder t' = inorder t"
  by (induction t fr rule: Split.induct) (auto split: if_splits)

lemma Skew_parents: "Skew t fr = (t', fr') \<Longrightarrow> parents_ok q t \<Longrightarrow> parents_ok q t'"
  by (induction t fr rule: Skew.induct) (auto split: if_splits intro: parents_ok_set_prev)

lemma Split_parents: "Split t fr = (t', fr') \<Longrightarrow> parents_ok q t \<Longrightarrow> parents_ok q t'"
  by (induction t fr rule: Split.induct) (auto split: if_splits intro: parents_ok_set_prev)

lemma Skew_not_Null: "Skew t fr = (t', fr') \<Longrightarrow> t \<noteq> Null \<Longrightarrow> t' \<noteq> Null"
  by (induction t fr rule: Skew.induct) (auto split: if_splits)

lemma Split_not_Null: "Split t fr = (t', fr') \<Longrightarrow> t \<noteq> Null \<Longrightarrow> t' \<noteq> Null"
  by (induction t fr rule: Split.induct) (auto split: if_splits)

lemma below_notin: "set xs \<subseteq> {..<fr} \<Longrightarrow> fr \<le> x \<Longrightarrow> x \<in> set xs \<longleftrightarrow> False" for fr :: nat
  by auto

lemma below_mono: "set xs \<subseteq> {..<fr} \<Longrightarrow> fr \<le> fr' \<Longrightarrow> set xs \<subseteq> {..<fr'}" for fr :: nat
  by auto

lemma Skew_allocated:
  "Skew t fr = (t', fr') \<Longrightarrow> allocated fr t \<Longrightarrow> allocated fr' t' \<and> grown fr t fr' t'"
  by (induction t fr rule: Skew.induct)
     (auto simp: allocated_def grown_def below_notin below_mono split: if_splits)

lemma Split_allocated:
  "Split t fr = (t', fr') \<Longrightarrow> allocated fr t \<Longrightarrow> allocated fr' t' \<and> grown fr t fr' t'"
  by (induction t fr rule: Split.induct)
     (auto simp: allocated_def grown_def below_notin below_mono split: if_splits)

subsection \<open>Insert\<close>

lemma Insert_TNode_E:
  assumes "Insert (TNode a v l p le ri) x st = (t', st')"
  obtains le1 st1 ri1 sz2 fr2 c1 fr3 fr4 where
    "x < v \<Longrightarrow> \<exists>l'. Insert le x st = (l', st1) \<and> le1 = set_prev (Some a) l'"
    "\<not> x < v \<Longrightarrow> le1 = le \<and> st1 = st"
    "v < x \<Longrightarrow> \<exists>r'. Insert ri x st1 = (r', (sz2, fr2)) \<and> ri1 = set_prev (Some a) r'"
    "\<not> v < x \<Longrightarrow> ri1 = ri \<and> st1 = (sz2, fr2)"
    "Skew (TNode a v l p le1 ri1) fr2 = (c1, fr3)"
    "Split c1 fr3 = (t', fr4)"
    "st' = (sz2, fr4)"
proof -
  obtain le1 st1 where L: "(if x < v
            then (case Insert le x st of (le', st') \<Rightarrow> (set_prev (Some a) le', st'))
            else (le, st)) = (le1, st1)" by (metis surj_pair)
  obtain ri1 sz2 fr2 where R: "(if v < x
            then (case Insert ri x st1 of (ri', st') \<Rightarrow> (set_prev (Some a) ri', st'))
            else (ri, st1)) = (ri1, (sz2, fr2))" by (metis surj_pair)
  obtain c1 fr3 where S: "Skew (TNode a v l p le1 ri1) fr2 = (c1, fr3)" by (metis surj_pair)
  obtain c2 fr4 where T: "Split c1 fr3 = (c2, fr4)" by (metis surj_pair)
  have res: "t' = c2" "st' = (sz2, fr4)" using assms L R S T by simp_all
  have 1: "x < v \<Longrightarrow> \<exists>l'. Insert le x st = (l', st1) \<and> le1 = set_prev (Some a) l'"
    using L by (auto split: prod.splits)
  have 2: "\<not> x < v \<Longrightarrow> le1 = le \<and> st1 = st" using L by simp
  have 3: "v < x \<Longrightarrow> \<exists>r'. Insert ri x st1 = (r', (sz2, fr2)) \<and> ri1 = set_prev (Some a) r'"
    using R by (auto split: prod.splits)
  have 4: "\<not> v < x \<Longrightarrow> ri1 = ri \<and> st1 = (sz2, fr2)" using R by simp
  have 5: "Split c1 fr3 = (t', fr4)" using T res by simp
  show thesis
    by (rule that [OF 1 2 3 4 S 5 res(2)])
qed

lemma Insert_inorder:
  "Insert t x st = (t', st') \<Longrightarrow> sorted_wrt (<) (inorder t) \<Longrightarrow>
   sorted_wrt (<) (inorder t') \<and> set (inorder t') = insert x (set (inorder t))"
proof (induction t arbitrary: st t' st')
  case Null
  then show ?case by (cases st) auto
next
  case (TNode a v l p le ri)
  from TNode.prems(1) show ?case
  proof (cases rule: Insert_TNode_E)
  case (1 le1 st1 ri1 sz2 fr2 c1 fr3 fr4)
  note L1 = 1(1) and L2 = 1(2) and R1 = 1(3) and R2 = 1(4) and S = 1(5) and T = 1(6)
  have io: "inorder t' = inorder le1 @ v # inorder ri1"
    using Skew_entries [OF S] Split_entries [OF T] by simp
  have sl: "sorted_wrt (<) (inorder le)" and sr: "sorted_wrt (<) (inorder ri)"
    using TNode.prems(2) by (auto simp: sorted_wrt_append)
  have l1: "sorted_wrt (<) (inorder le1) \<and>
      set (inorder le1) = (if x < v then insert x (set (inorder le)) else set (inorder le))"
  proof (cases "x < v")
    case True
    then obtain l' where "Insert le x st = (l', st1)" "le1 = set_prev (Some a) l'"
      using L1 by blast
    then show ?thesis using TNode.IH(1) [OF _ sl] True by simp
  next
    case False
    then show ?thesis using L2 sl by simp
  qed
  have r1: "sorted_wrt (<) (inorder ri1) \<and>
      set (inorder ri1) = (if v < x then insert x (set (inorder ri)) else set (inorder ri))"
  proof (cases "v < x")
    case True
    then obtain r' where "Insert ri x st1 = (r', (sz2, fr2))" "ri1 = set_prev (Some a) r'"
      using R1 by blast
    then show ?thesis using TNode.IH(2) [OF _ sr] True by simp
  next
    case False
    then show ?thesis using R2 sr by simp
  qed
  show ?thesis
    using io l1 r1 TNode.prems(2) by (auto simp: sorted_wrt_append split: if_splits)
  qed
qed

lemma grown_refl: "grown fr t fr t"
  by (simp add: grown_def)

lemma grown_trans: "grown fr t fr1 t1 \<Longrightarrow> grown fr1 t1 fr2 t2 \<Longrightarrow> grown fr t fr2 t2"
  by (fastforce simp: grown_def)

lemma grown_set_prev [simp]:
  "grown fr t fr' (set_prev q t') = grown fr t fr' t'"
  "grown fr (set_prev q t) fr' t' = grown fr t fr' t'"
  by (simp_all add: grown_def)

lemma allocated_set_prev [simp]: "allocated fr (set_prev q t) = allocated fr t"
  by (simp add: allocated_def)

lemma allocated_mono: "allocated fr t \<Longrightarrow> fr \<le> fr' \<Longrightarrow> allocated fr' t"
  by (auto simp: allocated_def)

lemma grown_le: "grown fr t fr' t' \<Longrightarrow> fr \<le> fr'"
  by (simp add: grown_def)

lemma allocated_children:
  "allocated fr (TNode a v l p le ri) \<Longrightarrow> allocated fr le \<and> allocated fr ri"
  by (auto simp: allocated_def)

lemma allocated_node:
  assumes "allocated fr (TNode a v l p le ri)"
    and "allocated fr1 le1" "grown fr le fr1 le1"
    and "allocated fr2 ri1" "grown fr1 ri fr2 ri1"
  shows "allocated fr2 (TNode a v' l' p' le1 ri1) \<and>
         grown fr (TNode a v l p le ri) fr2 (TNode a v' l' p' le1 ri1)"
proof -
  have le: "fr \<le> fr1" "fr1 \<le> fr2"
    using assms(3,5) by (simp_all add: grown_def)
  have a: "a < fr" "a \<notin> set (addrs le)" "a \<notin> set (addrs ri)"
    "set (addrs le) \<inter> set (addrs ri) = {}"
    "set (addrs le) \<subseteq> {..<fr}" "set (addrs ri) \<subseteq> {..<fr}"
    using assms(1) by (auto simp: allocated_def)
  have l: "distinct (addrs le1)" "set (addrs le1) \<subseteq> {..<fr1}"
    "\<forall>x\<in>set (addrs le1). x \<in> set (addrs le) \<or> fr \<le> x"
    using assms(2,3) by (auto simp: allocated_def grown_def)
  have r: "distinct (addrs ri1)" "set (addrs ri1) \<subseteq> {..<fr2}"
    "\<forall>x\<in>set (addrs ri1). x \<in> set (addrs ri) \<or> fr1 \<le> x"
    using assms(4,5) by (auto simp: allocated_def grown_def)
  have d1: "a \<notin> set (addrs le1)" using a l le by fastforce
  have d2: "a \<notin> set (addrs ri1)" using a r le by fastforce
  have d3: "set (addrs le1) \<inter> set (addrs ri1) = {}"
  proof (rule ccontr)
    assume "set (addrs le1) \<inter> set (addrs ri1) \<noteq> {}"
    then obtain x where x: "x \<in> set (addrs le1)" "x \<in> set (addrs ri1)" by blast
    from x(1) l have x1: "x < fr1" "x \<in> set (addrs le) \<or> fr \<le> x" by auto
    from x(2) r x1(1) have x2: "x \<in> set (addrs ri)" by auto
    with a have "x < fr" "x \<notin> set (addrs le)" by auto
    with x1(2) show False by simp
  qed
  have b: "set (addrs le1) \<subseteq> {..<fr2}" using l le by fastforce
  show ?thesis
    using a l r le d1 d2 d3 b by (auto simp: allocated_def grown_def)
qed

lemma Insert_parents:
  "Insert t x st = (t', st') \<Longrightarrow> parents_ok q t \<Longrightarrow>
   parents_ok (case t of Null \<Rightarrow> None | TNode a v l p le ri \<Rightarrow> q) t'"
proof (induction t arbitrary: st t' st' q)
  case Null
  then show ?case by (cases st) auto
next
  case (TNode a v l p le ri)
  from TNode.prems(1) show ?case
  proof (cases rule: Insert_TNode_E)
    case (1 le1 st1 ri1 sz2 fr2 c1 fr3 fr4)
    have pl: "parents_ok (Some a) le" and pr: "parents_ok (Some a) ri" and p: "p = q"
      using TNode.prems(2) by auto
    have l1: "parents_ok (Some a) le1"
    proof (cases "x < v")
      case True
      then obtain l' where l': "Insert le x st = (l', st1)" "le1 = set_prev (Some a) l'"
        using 1(1) by blast
      show ?thesis
        using TNode.IH(1) [OF l'(1) pl] l'(2) by (auto intro: parents_ok_set_prev)
    next
      case False
      then show ?thesis using 1(2) pl by simp
    qed
    have r1: "parents_ok (Some a) ri1"
    proof (cases "v < x")
      case True
      then obtain r' where r': "Insert ri x st1 = (r', (sz2, fr2))" "ri1 = set_prev (Some a) r'"
        using 1(3) by blast
      show ?thesis
        using TNode.IH(2) [OF r'(1) pr] r'(2) by (auto intro: parents_ok_set_prev)
    next
      case False
      then show ?thesis using 1(4) pr by simp
    qed
    have "parents_ok q (TNode a v l p le1 ri1)" using l1 r1 p by simp
    then have "parents_ok q c1" by (rule Skew_parents [OF 1(5)])
    then have "parents_ok q t'" by (rule Split_parents [OF 1(6)])
    then show ?thesis by simp
  qed
qed

lemma Insert_allocated:
  "Insert t x (sz, fr) = (t', (sz', fr')) \<Longrightarrow> allocated fr t \<Longrightarrow>
   allocated fr' t' \<and> grown fr t fr' t'"
proof (induction t arbitrary: sz fr t' sz' fr')
  case Null
  then show ?case by (auto simp: allocated_def grown_def)
next
  case (TNode a v l p le ri)
  from TNode.prems(1) show ?case
  proof (cases rule: Insert_TNode_E)
    case (1 le1 st1 ri1 sz2 fr2 c1 fr3 fr4)
    obtain sz1 fr1 where st1: "st1 = (sz1, fr1)" by (cases st1)
    have al: "allocated fr le" and ar: "allocated fr ri"
      using allocated_children [OF TNode.prems(2)] by simp_all
    have l1: "allocated fr1 le1 \<and> grown fr le fr1 le1"
    proof (cases "x < v")
      case True
      then obtain l' where l': "Insert le x (sz, fr) = (l', (sz1, fr1))" "le1 = set_prev (Some a) l'"
        using 1(1) st1 by blast
      show ?thesis
        using TNode.IH(1) [OF l'(1) al] l'(2) by simp
    next
      case False
      then show ?thesis using 1(2) al st1 by (simp add: grown_refl)
    qed
    then have ar1: "allocated fr1 ri" using ar allocated_mono grown_le by blast
    have r1: "allocated fr2 ri1 \<and> grown fr1 ri fr2 ri1"
    proof (cases "v < x")
      case True
      then obtain r' where r': "Insert ri x (sz1, fr1) = (r', (sz2, fr2))" "ri1 = set_prev (Some a) r'"
        using 1(3) st1 by blast
      show ?thesis
        using TNode.IH(2) [OF r'(1) ar1] r'(2) by simp
    next
      case False
      then show ?thesis using 1(4) ar1 st1 by (simp add: grown_refl)
    qed
    have n: "allocated fr2 (TNode a v l p le1 ri1) \<and>
        grown fr (TNode a v l p le ri) fr2 (TNode a v l p le1 ri1)"
      using allocated_node [OF TNode.prems(2)] l1 r1 by blast
    have s: "allocated fr3 c1 \<and> grown fr2 (TNode a v l p le1 ri1) fr3 c1"
      using Skew_allocated [OF 1(5)] n by blast
    have t: "allocated fr4 t' \<and> grown fr3 c1 fr4 t'"
      using Split_allocated [OF 1(6)] s by blast
    have "fr' = fr4" using 1(7) by simp
    then show ?thesis
      using n s t grown_trans by blast
  qed
qed

lemma Insert_size:
  "Insert t x (sz, fr) = (t', (sz', fr')) \<Longrightarrow>
   sz' + length (inorder t) = sz + length (inorder t')"
proof (induction t arbitrary: sz fr t' sz' fr')
  case Null
  then show ?case by auto
next
  case (TNode a v l p le ri)
  from TNode.prems(1) show ?case
  proof (cases rule: Insert_TNode_E)
    case (1 le1 st1 ri1 sz2 fr2 c1 fr3 fr4)
    obtain sz1 fr1 where st1: "st1 = (sz1, fr1)" by (cases st1)
    have io: "inorder t' = inorder le1 @ v # inorder ri1"
      using Skew_entries [OF 1(5)] Split_entries [OF 1(6)] by simp
    have l1: "sz1 + length (inorder le) = sz + length (inorder le1)"
    proof (cases "x < v")
      case True
      then obtain l' where l': "Insert le x (sz, fr) = (l', (sz1, fr1))" "le1 = set_prev (Some a) l'"
        using 1(1) st1 by blast
      show ?thesis using TNode.IH(1) [OF l'(1)] l'(2) by simp
    next
      case False
      then show ?thesis using 1(2) st1 by simp
    qed
    have r1: "sz2 + length (inorder ri) = sz1 + length (inorder ri1)"
    proof (cases "v < x")
      case True
      then obtain r' where r': "Insert ri x (sz1, fr1) = (r', (sz2, fr2))" "ri1 = set_prev (Some a) r'"
        using 1(3) st1 by blast
      show ?thesis using TNode.IH(2) [OF r'(1)] r'(2) by simp
    next
      case False
      then show ?thesis using 1(4) st1 by simp
    qed
    have "sz' = sz2" using 1(7) by simp
    then show ?thesis using io l1 r1 by simp
  qed
qed

subsection \<open>The tail of Erase\<close>

lemma preserves_Skew: "preserves Skew"
  unfolding preserves_def
  using Skew_entries Skew_not_Null Skew_parents Skew_allocated by blast

lemma preserves_Split: "preserves Split"
  unfolding preserves_def
  using Split_entries Split_not_Null Split_parents Split_allocated by blast

lemma preserves_and_then: "preserves f \<Longrightarrow> preserves g \<Longrightarrow> preserves (and_then f g)"
  unfolding preserves_def and_then_def
  by (auto split: prod.splits; (blast intro: grown_trans)?)

lemma DecreaseLevel_same:
  "DecreaseLevel t = Some t' \<Longrightarrow>
   entries t' = entries t \<and> inorder t' = inorder t \<and> t' \<noteq> Null \<and> parents_ok q t' = parents_ok q t"
  by (induction t rule: DecreaseLevel.induct) (auto simp: Let_def split: if_splits)

lemma DecreaseLevel_addrs: "DecreaseLevel t = Some t' \<Longrightarrow> addrs t' = addrs t"
  using DecreaseLevel_same [of t t'] by (simp add: addrs_def)

lemma preserves_lower_level: "preserves lower_level"
  unfolding preserves_def lower_level_def
  by (auto split: option.splits dest: DecreaseLevel_same
           simp: grown_def allocated_def DecreaseLevel_addrs)

lemma preserves_on_right: "preserves f \<Longrightarrow> preserves (on_right f)"
  unfolding preserves_def
proof (intro allI impI)
  fix t :: "'a TNode" and fr t' fr'
  assume f: "\<forall>t fr t' fr'. f t fr = (t', fr') \<longrightarrow>
        inorder t' = inorder t \<and> (t \<noteq> Null \<longrightarrow> t' \<noteq> Null) \<and>
        (\<forall>q. parents_ok q t \<longrightarrow> parents_ok q t') \<and>
        (allocated fr t \<longrightarrow> allocated fr' t' \<and> grown fr t fr' t')"
    and o: "on_right f t fr = (t', fr')"
  show "inorder t' = inorder t \<and> (t \<noteq> Null \<longrightarrow> t' \<noteq> Null) \<and>
        (\<forall>q. parents_ok q t \<longrightarrow> parents_ok q t') \<and>
        (allocated fr t \<longrightarrow> allocated fr' t' \<and> grown fr t fr' t')"
  proof (cases t)
    case Null
    then show ?thesis using o by (simp add: on_right_def grown_refl)
  next
    case (TNode a v l p le ri)
    obtain r' where r: "f ri fr = (r', fr')" and t': "t' = TNode a v l p le r'"
      using o TNode by (auto simp: on_right_def split: prod.splits)
    from f r have fr: "inorder r' = inorder ri" "\<forall>q. parents_ok q ri \<longrightarrow> parents_ok q r'"
      "allocated fr ri \<longrightarrow> allocated fr' r' \<and> grown fr ri fr' r'"
      by blast+
    have al: "allocated fr' t' \<and> grown fr t fr' t'" if a: "allocated fr t"
    proof -
      have "allocated fr le" "allocated fr ri"
        using a TNode allocated_children [of fr a v l p le ri] by simp_all
      then show ?thesis
        using allocated_node [of fr a v l p le ri fr le fr' r' v l p] a fr(3) TNode t'
        by (simp add: grown_refl)
    qed
    show ?thesis
      using fr al TNode t' by auto
  qed
qed

lemma preserves_tail_steps: "preserves tail_steps"
  unfolding tail_steps_def
  by (intro preserves_and_then preserves_on_right preserves_lower_level preserves_Skew
        preserves_Split)

lemma DecreaseLevel_total: "t \<noteq> Null \<Longrightarrow> \<exists>t'. DecreaseLevel t = Some t'"
  by (induction t rule: DecreaseLevel.induct) (auto simp: Let_def)

lemma get_put_RightNode:
  "t \<noteq> Null \<Longrightarrow> \<exists>a v l p le ri. t = TNode a v l p le ri \<and> get_RightNode t = Some ri \<and>
     (\<forall>r. put_RightNode t r = Some (TNode a v l p le r))"
  by (cases t) auto

lemma Erase_tail_steps: "c \<noteq> Null \<Longrightarrow> Erase_tail c fr = Some (tail_steps c fr)"
proof -
  assume c: "c \<noteq> Null"
  obtain c1 where c1: "DecreaseLevel c = Some c1" "c1 \<noteq> Null"
    using DecreaseLevel_total [OF c] DecreaseLevel_same by blast
  obtain c2 fr2 where c2: "Skew c1 fr = (c2, fr2)" by (metis surj_pair)
  have "c2 \<noteq> Null" using Skew_not_Null [OF c2 c1(2)] .
  then obtain a v l p le r2 where n2: "c2 = TNode a v l p le r2" by (cases c2) auto
  obtain r3 fr3 where r3: "Skew r2 fr2 = (r3, fr3)" by (metis surj_pair)
  obtain c4 fr4 where c4: "on_right (on_right Skew) (TNode a v l p le r3) fr3 = (c4, fr4)"
    by (metis surj_pair)
  have s4: "(case r3 of
               Null \<Rightarrow> Some (TNode a v l p le r3, fr3)
             | TNode ra rv rl rp rle rri \<Rightarrow>
                 (case Skew rri fr3 of (rr', fr') \<Rightarrow>
                    (case put_RightNode (TNode a v l p le r3) (TNode ra rv rl rp rle rr') of
                       None \<Rightarrow> None | Some c' \<Rightarrow> Some (c', fr')))) = Some (c4, fr4)"
    using c4 by (auto simp: on_right_def split: TNode.splits prod.splits)
  obtain c5 fr5 where c5: "Split c4 fr4 = (c5, fr5)" by (metis surj_pair)
  have "c4 \<noteq> Null" using c4 by (auto simp: on_right_def split: TNode.splits prod.splits)
  then have "c5 \<noteq> Null" using Split_not_Null [OF c5] by simp
  then obtain a5 v5 l5 p5 le5 r5 where n5: "c5 = TNode a5 v5 l5 p5 le5 r5" by (cases c5) auto
  obtain r6 fr6 where r6: "Split r5 fr5 = (r6, fr6)" by (metis surj_pair)
  have lhs: "Erase_tail c fr = Some (TNode a5 v5 l5 p5 le5 r6, fr6)"
    unfolding Erase_tail_def using c1 c2 n2 r3 s4 c5 n5 r6 by simp
  have rhs: "tail_steps c fr = (TNode a5 v5 l5 p5 le5 r6, fr6)"
    unfolding tail_steps_def and_then_def lower_level_def
    using c1 c2 n2 r3 c4 c5 n5 r6 by (simp add: on_right_def)
  show ?thesis using lhs rhs by simp
qed

lemma Erase_tail_preserves:
  assumes "c \<noteq> Null"
  shows "\<exists>c' fr'. Erase_tail c fr = Some (c', fr') \<and> c' \<noteq> Null \<and> inorder c' = inorder c \<and>
           (\<forall>q. parents_ok q c \<longrightarrow> parents_ok q c') \<and>
           (allocated fr c \<longrightarrow> allocated fr' c' \<and> grown fr c fr' c')"
proof -
  obtain c' fr' where t: "tail_steps c fr = (c', fr')" by (metis surj_pair)
  have "Erase_tail c fr = Some (c', fr')" using Erase_tail_steps [OF assms] t by simp
  moreover have "c' \<noteq> Null \<and> inorder c' = inorder c \<and>
           (\<forall>q. parents_ok q c \<longrightarrow> parents_ok q c') \<and>
           (allocated fr c \<longrightarrow> allocated fr' c' \<and> grown fr c fr' c')"
    using preserves_tail_steps t assms unfolding preserves_def by blast
  ultimately show ?thesis by blast
qed

lemma tail_after_left:
  assumes "parents_ok q (TNode a v l p le ri)" "allocated fr (TNode a v l p le ri)"
    and "parents_ok q' le'" "allocated fr1 le'" "grown fr le fr1 le'"
  shows "\<exists>c fr2. Erase_tail (TNode a v' l p (set_prev (Some a) le') ri) fr1 = Some (c, fr2) \<and>
           parents_ok q c \<and> allocated fr2 c \<and> grown fr (TNode a v l p le ri) fr2 c \<and>
           inorder c = inorder le' @ v' # inorder ri"
proof -
  let ?n = "TNode a v' l p (set_prev (Some a) le') ri"
  have ar: "allocated fr1 ri"
    using allocated_children [OF assms(2)] allocated_mono grown_le [OF assms(5)] by blast
  have n: "allocated fr1 ?n \<and> grown fr (TNode a v l p le ri) fr1 ?n"
    using allocated_node [OF assms(2), of fr1 "set_prev (Some a) le'" fr1 ri v' l p]
      assms(4,5) ar by (simp add: grown_refl)
  have pn: "parents_ok q ?n"
    using assms(1,3) by (auto intro: parents_ok_set_prev)
  obtain c fr2 where c: "Erase_tail ?n fr1 = Some (c, fr2)" "inorder c = inorder ?n"
    "\<forall>q. parents_ok q ?n \<longrightarrow> parents_ok q c"
    "allocated fr1 ?n \<longrightarrow> allocated fr2 c \<and> grown fr1 ?n fr2 c"
    using Erase_tail_preserves [of ?n fr1] by auto
  show ?thesis
    using c n pn grown_trans by (intro exI [of _ c] exI [of _ fr2]) auto
qed

lemma tail_after_right:
  assumes "parents_ok q (TNode a v l p le ri)" "allocated fr (TNode a v l p le ri)"
    and "parents_ok q' ri'" "allocated fr1 ri'" "grown fr ri fr1 ri'"
  shows "\<exists>c fr2. Erase_tail (TNode a v' l p le (set_prev (Some a) ri')) fr1 = Some (c, fr2) \<and>
           parents_ok q c \<and> allocated fr2 c \<and> grown fr (TNode a v l p le ri) fr2 c \<and>
           inorder c = inorder le @ v' # inorder ri'"
proof -
  let ?n = "TNode a v' l p le (set_prev (Some a) ri')"
  have al: "allocated fr le"
    using allocated_children [OF assms(2)] by blast
  have n: "allocated fr1 ?n \<and> grown fr (TNode a v l p le ri) fr1 ?n"
    using allocated_node [OF assms(2), of fr le fr1 "set_prev (Some a) ri'" v' l p]
      assms(4,5) al by (simp add: grown_refl)
  have pn: "parents_ok q ?n"
    using assms(1,3) by (auto intro: parents_ok_set_prev)
  obtain c fr2 where c: "Erase_tail ?n fr1 = Some (c, fr2)" "inorder c = inorder ?n"
    "\<forall>q. parents_ok q ?n \<longrightarrow> parents_ok q c"
    "allocated fr1 ?n \<longrightarrow> allocated fr2 c \<and> grown fr1 ?n fr2 c"
    using Erase_tail_preserves [of ?n fr1] by auto
  show ?thesis
    using c n pn grown_trans by (intro exI [of _ c] exI [of _ fr2]) auto
qed

lemma leftmost_hd:
  "t \<noteq> Null \<Longrightarrow> \<exists>a v l p ri es. leftmost t = Some (TNode a v l p Null ri) \<and>
     entries t = (a, v) # es"
proof (induction t rule: leftmost.induct)
  case (3 a v l p la lv ll lp lle lri ri)
  then obtain a' v' l' p' ri' es where
    "leftmost (TNode la lv ll lp lle lri) = Some (TNode a' v' l' p' Null ri')"
    "entries (TNode la lv ll lp lle lri) = (a', v') # es" by blast
  then show ?case
    by (intro exI [of _ a'] exI [of _ v'] exI [of _ l'] exI [of _ p'] exI [of _ ri']
          exI [of _ "es @ (a, v) # entries ri"]) simp
qed auto

lemma rightmost_last:
  "t \<noteq> Null \<Longrightarrow> \<exists>a v l p le es. rightmost t = Some (TNode a v l p le Null) \<and>
     entries t = es @ [(a, v)]"
proof (induction t rule: rightmost.induct)
  case (3 a v l p le ra rv rl rp rle rri)
  then obtain a' v' l' p' le' es where
    "rightmost (TNode ra rv rl rp rle rri) = Some (TNode a' v' l' p' le' Null)"
    "entries (TNode ra rv rl rp rle rri) = es @ [(a', v')]" by blast
  then show ?case
    by (intro exI [of _ a'] exI [of _ v'] exI [of _ l'] exI [of _ p'] exI [of _ le']
          exI [of _ "entries le @ (a, v) # es"]) simp
qed auto

subsection \<open>Erase\<close>

lemma Erase_invariants:
  assumes "parents_ok q t" "allocated fr t" "sorted_wrt (<) (inorder t)"
  shows "\<exists>t' sz' fr'. Erase t x (sz, fr) = Some (t', (sz', fr')) \<and> erased q t x sz fr t' sz' fr'"
  using assms
proof (induction t arbitrary: x sz fr q)
  case Null
  then show ?case by (simp add: erased_def grown_refl)
next
  case (TNode a v l p le ri)
  let ?t = "TNode a v l p le ri"
  have pl: "parents_ok (Some a) le" and pr: "parents_ok (Some a) ri"
    using TNode.prems(1) by auto
  have al: "allocated fr le" and ar: "allocated fr ri"
    using allocated_children [OF TNode.prems(2)] by simp_all
  have sl: "sorted_wrt (<) (inorder le)" and sr: "sorted_wrt (<) (inorder ri)"
    and lv: "\<forall>y\<in>set (inorder le). y < v" and rv: "\<forall>y\<in>set (inorder ri). v < y"
    and lr: "\<forall>y\<in>set (inorder le). \<forall>z\<in>set (inorder ri). y < z"
    using TNode.prems(3) by (auto simp: sorted_wrt_append)
  consider (A) "x < v" | (B) "\<not> x < v" "v < x"
    | (C) "x = v" "le = Null" "ri = Null"
    | (D) "x = v" "le = Null" "ri \<noteq> Null"
    | (E) "x = v" "le \<noteq> Null"
    by (cases le; cases ri) force+
  then show ?case
  proof cases
    case A
    obtain le' sz' fr1 where e: "Erase le x (sz, fr) = Some (le', (sz', fr1))"
      and i: "erased (Some a) le x sz fr le' sz' fr1"
      using TNode.IH(1) [OF pl al sl] by blast
    obtain c fr2 where c: "Erase_tail (TNode a v l p (set_prev (Some a) le') ri) fr1 = Some (c, fr2)"
      "parents_ok q c" "allocated fr2 c" "grown fr ?t fr2 c"
      "inorder c = inorder le' @ v # inorder ri"
      using tail_after_left [OF TNode.prems(1,2), of "Some a" le' fr1 v] i
      unfolding erased_def by blast
    have "Erase ?t x (sz, fr) = Some (c, (sz', fr2))"
      using A e c(1) by simp
    moreover have "erased q ?t x sz fr c sz' fr2"
      using c i A lv rv lr sr unfolding erased_def
      by (auto simp: sorted_wrt_append)
    ultimately show ?thesis by blast
  next
    case B
    obtain ri' sz' fr1 where e: "Erase ri x (sz, fr) = Some (ri', (sz', fr1))"
      and i: "erased (Some a) ri x sz fr ri' sz' fr1"
      using TNode.IH(2) [OF pr ar sr] by blast
    obtain c fr2 where c: "Erase_tail (TNode a v l p le (set_prev (Some a) ri')) fr1 = Some (c, fr2)"
      "parents_ok q c" "allocated fr2 c" "grown fr ?t fr2 c"
      "inorder c = inorder le @ v # inorder ri'"
      using tail_after_right [OF TNode.prems(1,2), of "Some a" ri' fr1 v] i
      unfolding erased_def by blast
    have "Erase ?t x (sz, fr) = Some (c, (sz', fr2))"
      using B e c(1) by simp
    moreover have "erased q ?t x sz fr c sz' fr2"
      using c i B lv rv lr sl unfolding erased_def
      by (auto simp: sorted_wrt_append)
    ultimately show ?thesis by blast
  next
    case C
    have "Erase ?t x (sz, fr) = Some (Null, ((if sz = 0 then 2 ^ 64 - 1 else sz - 1), fr))"
      using C by simp
    moreover have "erased q ?t x sz fr Null (if sz = 0 then 2 ^ 64 - 1 else sz - 1) fr"
      using C unfolding erased_def by (auto simp: allocated_def grown_def)
    ultimately show ?thesis by blast
  next
    case D
    obtain sa sv sl' sp sri es where s: "leftmost ri = Some (TNode sa sv sl' sp Null sri)"
      "entries ri = (sa, sv) # es"
      using leftmost_hd [OF D(3)] by blast
    have iori: "inorder ri = sv # map snd es"
      using s(2) by (simp add: inorder_entries)
    obtain ri' sz' fr1 where e: "Erase ri sv (sz, fr) = Some (ri', (sz', fr1))"
      and i: "erased (Some a) ri sv sz fr ri' sz' fr1"
      using TNode.IH(2) [OF pr ar sr] by blast
    obtain c fr2 where c: "Erase_tail (TNode a sv l p le (set_prev (Some a) ri')) fr1 = Some (c, fr2)"
      "parents_ok q c" "allocated fr2 c" "grown fr ?t fr2 c"
      "inorder c = inorder le @ sv # inorder ri'"
      using tail_after_right [OF TNode.prems(1,2), of "Some a" ri' fr1 sv] i
      unfolding erased_def by blast
    have "Erase ?t x (sz, fr) = Some (c, (sz', fr2))"
      using D e c(1) s(1) by (cases ri) auto
    moreover have "erased q ?t x sz fr c sz' fr2"
      using c i D rv sr iori unfolding erased_def
      by (auto simp: sorted_wrt_append)
    ultimately show ?thesis by blast
  next
    case E
    obtain sa sv sl' sp sle es where s: "rightmost le = Some (TNode sa sv sl' sp sle Null)"
      "entries le = es @ [(sa, sv)]"
      using rightmost_last [OF E(2)] by blast
    have iole: "inorder le = map snd es @ [sv]"
      using s(2) by (simp add: inorder_entries)
    obtain le' sz' fr1 where e: "Erase le sv (sz, fr) = Some (le', (sz', fr1))"
      and i: "erased (Some a) le sv sz fr le' sz' fr1"
      using TNode.IH(1) [OF pl al sl] by blast
    obtain c fr2 where c: "Erase_tail (TNode a sv l p (set_prev (Some a) le') ri) fr1 = Some (c, fr2)"
      "parents_ok q c" "allocated fr2 c" "grown fr ?t fr2 c"
      "inorder c = inorder le' @ sv # inorder ri"
      using tail_after_left [OF TNode.prems(1,2), of "Some a" le' fr1 sv] i
      unfolding erased_def by blast
    have "Erase ?t x (sz, fr) = Some (c, (sz', fr2))"
      using E e c(1) s(1) by (cases le) auto
    moreover have "erased q ?t x sz fr c sz' fr2"
      using c i E lv rv lr sl sr iole unfolding erased_def
      by (auto simp: sorted_wrt_append)
    ultimately show ?thesis by blast
  qed
qed

subsection \<open>Reading nodes through pointers\<close>

lemma node_at_None: "x \<notin> set (addrs t) \<Longrightarrow> node_at t x = None"
  by (induction t) auto

lemma node_at_in: "x \<in> set (addrs t) \<Longrightarrow> \<exists>n. node_at t x = Some n"
  by (induction t) (auto split: option.splits)

lemma node_at_Some:
  "node_at t x = Some n \<Longrightarrow>
   x \<in> set (addrs t) \<and> ptr n = Some x \<and> set (entries n) \<subseteq> set (entries t)"
  by (induction t) (auto split: if_splits option.splits)

lemma node_at_value:
  "node_at t x = Some (TNode b nv nl np nle nri) \<Longrightarrow> b = x \<and> (x, nv) \<in> set (entries t)"
  using node_at_Some [of t x "TNode b nv nl np nle nri"] by auto

lemma node_at_entry:
  "distinct (addrs t) \<Longrightarrow> (x, y) \<in> set (entries t) \<Longrightarrow>
   \<exists>l p le ri. node_at t x = Some (TNode x y l p le ri)"
proof (induction t)
  case Null
  then show ?case by simp
next
  case (TNode a v l p le ri)
  have d: "distinct (addrs le)" "distinct (addrs ri)" "a \<notin> set (addrs le)" "a \<notin> set (addrs ri)"
    "set (addrs le) \<inter> set (addrs ri) = {}"
    using TNode.prems(1) by auto
  consider "(x, y) = (a, v)" | "(x, y) \<in> set (entries le)" | "(x, y) \<in> set (entries ri)"
    using TNode.prems(2) by auto
  then show ?case
  proof cases
    case 1
    then show ?thesis by simp
  next
    case 2
    then have "x \<in> set (addrs le)" by (force simp: addrs_def)
    then have "x \<noteq> a" using d by auto
    then show ?thesis using TNode.IH(1) [OF d(1) 2] by auto
  next
    case 3
    then have x: "x \<in> set (addrs ri)" by (force simp: addrs_def)
    then have "x \<noteq> a" "x \<notin> set (addrs le)" using d by auto
    then show ?thesis using TNode.IH(2) [OF d(2) 3] by (auto simp: node_at_None)
  qed
qed

lemma sits_in_refl: "sits_in t t"
  by (simp add: sits_in_def)

lemma sits_in_children:
  assumes "sits_in rt (TNode a v l p le ri)" "distinct (addrs (TNode a v l p le ri))"
  shows "sits_in rt le" "sits_in rt ri" "node_at rt a = Some (TNode a v l p le ri)"
proof -
  have d: "a \<notin> set (addrs le)" "a \<notin> set (addrs ri)"
    "set (addrs le) \<inter> set (addrs ri) = {}"
    using assms(2) by auto
  show "sits_in rt le"
    unfolding sits_in_def
  proof
    fix x assume x: "x \<in> set (addrs le)"
    then have "node_at rt x = node_at (TNode a v l p le ri) x"
      using assms(1) by (simp add: sits_in_def)
    moreover have "x \<noteq> a" using x d by auto
    moreover have "node_at le x \<noteq> None" using x node_at_in by fastforce
    ultimately show "node_at rt x = node_at le x" by (auto split: option.splits)
  qed
  show "sits_in rt ri"
    unfolding sits_in_def
  proof
    fix x assume x: "x \<in> set (addrs ri)"
    then have "node_at rt x = node_at (TNode a v l p le ri) x"
      using assms(1) by (simp add: sits_in_def)
    moreover have "x \<noteq> a" "x \<notin> set (addrs le)" using x d by auto
    ultimately show "node_at rt x = node_at ri x" by (simp add: node_at_None)
  qed
  show "node_at rt a = Some (TNode a v l p le ri)"
    using assms(1) by (simp add: sits_in_def)
qed

subsection \<open>The loops of the iterator steps\<close>

lemma entries_less:
  fixes v :: "'a::linorder"
  shows "sorted_wrt (<) (inorder (TNode a v l p le ri)) \<Longrightarrow>
   (\<forall>b y. (b, y) \<in> set (entries le) \<longrightarrow> y < v) \<and>
   (\<forall>b y. (b, y) \<in> set (entries ri) \<longrightarrow> v < y) \<and>
   sorted_wrt (<) (inorder le) \<and> sorted_wrt (<) (inorder ri)"
  by (force simp: sorted_wrt_append inorder_entries)

lemma filter_none: "\<forall>e\<in>set es. \<not> P e \<Longrightarrow> filter P es = []"
  by (induction es) auto

lemma filter_all: "\<forall>e\<in>set es. P e \<Longrightarrow> filter P es = es"
  by (induction es) auto

lemma gt_none:
  fixes v :: "'a::linorder"
  assumes "\<forall>b y. (b, y) \<in> set es \<longrightarrow> y < v" "v \<le> nv"
  shows "filter (\<lambda>e. nv < snd e) es = []"
proof (rule filter_none, rule ballI)
  fix e assume e: "e \<in> set es"
  have "snd e < v" using assms(1) e by (metis prod.collapse)
  then show "\<not> nv < snd e" using assms(2) by order
qed

lemma gt_all:
  fixes v :: "'a::linorder"
  assumes "\<forall>b y. (b, y) \<in> set es \<longrightarrow> v < y" "nv \<le> v"
  shows "filter (\<lambda>e. nv < snd e) es = es"
proof (rule filter_all, rule ballI)
  fix e assume e: "e \<in> set es"
  have "v < snd e" using assms(1) e by (metis prod.collapse)
  then show "nv < snd e" using assms(2) by order
qed

lemma lt_none:
  fixes v :: "'a::linorder"
  assumes "\<forall>b y. (b, y) \<in> set es \<longrightarrow> v < y" "nv \<le> v"
  shows "filter (\<lambda>e. snd e < nv) es = []"
proof (rule filter_none, rule ballI)
  fix e assume e: "e \<in> set es"
  have "v < snd e" using assms(1) e by (metis prod.collapse)
  then show "\<not> snd e < nv" using assms(2) by order
qed

lemma lt_all:
  fixes v :: "'a::linorder"
  assumes "\<forall>b y. (b, y) \<in> set es \<longrightarrow> y < v" "v \<le> nv"
  shows "filter (\<lambda>e. snd e < nv) es = es"
proof (rule filter_all, rule ballI)
  fix e assume e: "e \<in> set es"
  have "snd e < v" using assms(1) e by (metis prod.collapse)
  then show "snd e < nv" using assms(2) by order
qed

lemmas filter_side = gt_none gt_all lt_none lt_all

lemma incr_loop_up:
  assumes "sits_in rt t" "parents_ok q t" "sorted_wrt (<) (inorder t)" "distinct (addrs t)"
    and "node_at t x = Some (TNode b nv nl np nle Null)"
  shows "incr_loop rt (TNode b nv nl np nle Null) =
     (case filter (\<lambda>e. nv < snd e) (entries t) of
        [] \<Rightarrow> incr_loop rt t
      | e # es \<Rightarrow> Some (Some (fst e)))"
  using assms
proof (induction t arbitrary: q)
  case Null
  then show ?case by simp
next
  case (TNode a v l p le ri)
  let ?n = "TNode b nv nl np nle Null"
  let ?t = "TNode a v l p le ri"
  note ord = entries_less [OF TNode.prems(3)]
  note ch = sits_in_children [OF TNode.prems(1,4)]
  have d: "distinct (addrs le)" "distinct (addrs ri)"
    using TNode.prems(4) by auto
  have pl: "parents_ok (Some a) le" and pr: "parents_ok (Some a) ri"
    using TNode.prems(2) by auto
  consider (top) "x = a" | (left) "x \<noteq> a" "node_at le x = Some ?n"
    | (right) "x \<noteq> a" "node_at le x = None" "node_at ri x = Some ?n"
    using TNode.prems(5) by (auto split: if_splits option.splits)
  then show ?case
  proof cases
    case top
    then have eq: "?n = ?t" using TNode.prems(5) by simp
    then have "filter (\<lambda>e. nv < snd e) (entries ?t) = []"
      using ord by (simp add: filter_side [where v = v] less_imp_le)
    then show ?thesis using eq by simp
  next
    case left
    have nvle: "(x, nv) \<in> set (entries le)" using node_at_value [OF left(2)] by simp
    then have nv: "nv < v" using ord by auto
    have f: "filter (\<lambda>e. nv < snd e) (entries ?t) =
        filter (\<lambda>e. nv < snd e) (entries le) @ (a, v) # entries ri"
      using ord nv by (simp add: filter_side [where v = v] less_imp_le)
    have ih: "incr_loop rt ?n =
       (case filter (\<lambda>e. nv < snd e) (entries le) of
          [] \<Rightarrow> incr_loop rt le | e # es \<Rightarrow> Some (Some (fst e)))"
      using TNode.IH(1) [OF ch(1) pl _ d(1) left(2)] ord by simp
    show ?thesis
    proof (cases "filter (\<lambda>e. nv < snd e) (entries le)")
      case Nil
      obtain la lv ll lp lle lri where le: "le = TNode la lv ll lp lle lri"
        using nvle by (cases le) auto
      have "lv < v" using ord le by auto
      then have "\<not> v < lv" by auto
      then have "incr_loop rt le = Some (Some a)"
        using le pl ch(3) by simp
      then show ?thesis using ih Nil f by simp
    next
      case (Cons e es)
      then show ?thesis using ih f by simp
    qed
  next
    case right
    have nvri: "(x, nv) \<in> set (entries ri)" using node_at_value [OF right(3)] by simp
    then have nv: "v < nv" using ord by auto
    have "filter (\<lambda>e. nv < snd e) (entries le) = []"
      using ord nv by (simp add: filter_side [where v = v] less_imp_le)
    then have f: "filter (\<lambda>e. nv < snd e) (entries ?t) = filter (\<lambda>e. nv < snd e) (entries ri)"
      using nv by simp
    have ih: "incr_loop rt ?n =
       (case filter (\<lambda>e. nv < snd e) (entries ri) of
          [] \<Rightarrow> incr_loop rt ri | e # es \<Rightarrow> Some (Some (fst e)))"
      using TNode.IH(2) [OF ch(2) pr _ d(2) right(3)] ord by simp
    show ?thesis
    proof (cases "filter (\<lambda>e. nv < snd e) (entries ri)")
      case Nil
      obtain ra rv rl rp rle rri where ri: "ri = TNode ra rv rl rp rle rri"
        using nvri by (cases ri) auto
      have "v < rv" using ord ri by auto
      then have "incr_loop rt ri = incr_loop rt ?t"
        using ri pr ch(3) by simp
      then show ?thesis using ih Nil f by simp
    next
      case (Cons e es)
      then show ?thesis using ih f by simp
    qed
  qed
qed

lemma decr_loop_up:
  assumes "sits_in rt t" "parents_ok q t" "sorted_wrt (<) (inorder t)" "distinct (addrs t)"
    and "node_at t x = Some (TNode b nv nl np Null nri)"
  shows "decr_loop rt (TNode b nv nl np Null nri) =
     (if filter (\<lambda>e. snd e < nv) (entries t) = [] then decr_loop rt t
      else Some (Some (fst (last (filter (\<lambda>e. snd e < nv) (entries t))))))"
  using assms
proof (induction t arbitrary: q)
  case Null
  then show ?case by simp
next
  case (TNode a v l p le ri)
  let ?n = "TNode b nv nl np Null nri"
  let ?t = "TNode a v l p le ri"
  note ord = entries_less [OF TNode.prems(3)]
  note ch = sits_in_children [OF TNode.prems(1,4)]
  have d: "distinct (addrs le)" "distinct (addrs ri)"
    using TNode.prems(4) by auto
  have pl: "parents_ok (Some a) le" and pr: "parents_ok (Some a) ri"
    using TNode.prems(2) by auto
  consider (top) "x = a" | (left) "x \<noteq> a" "node_at le x = Some ?n"
    | (right) "x \<noteq> a" "node_at le x = None" "node_at ri x = Some ?n"
    using TNode.prems(5) by (auto split: if_splits option.splits)
  then show ?case
  proof cases
    case top
    then have eq: "?n = ?t" using TNode.prems(5) by simp
    then have "filter (\<lambda>e. snd e < nv) (entries ?t) = []"
      using ord by (simp add: filter_side [where v = v] less_imp_le)
    then show ?thesis using eq by simp
  next
    case right
    have nvri: "(x, nv) \<in> set (entries ri)" using node_at_value [OF right(3)] by simp
    then have nv: "v < nv" using ord by auto
    have f: "filter (\<lambda>e. snd e < nv) (entries ?t) =
        entries le @ (a, v) # filter (\<lambda>e. snd e < nv) (entries ri)"
      using ord nv by (simp add: filter_side [where v = v] less_imp_le)
    have ih: "decr_loop rt ?n =
       (if filter (\<lambda>e. snd e < nv) (entries ri) = [] then decr_loop rt ri
        else Some (Some (fst (last (filter (\<lambda>e. snd e < nv) (entries ri))))))"
      using TNode.IH(2) [OF ch(2) pr _ d(2) right(3)] ord by simp
    show ?thesis
    proof (cases "filter (\<lambda>e. snd e < nv) (entries ri) = []")
      case True
      obtain ra rv rl rp rle rri where ri: "ri = TNode ra rv rl rp rle rri"
        using nvri by (cases ri) auto
      have "v < rv" using ord ri by auto
      then have "\<not> rv < v" by auto
      then have "decr_loop rt ri = Some (Some a)"
        using ri pr ch(3) by simp
      then show ?thesis using ih True f by simp
    next
      case False
      then show ?thesis using ih f by simp
    qed
  next
    case left
    have nvle: "(x, nv) \<in> set (entries le)" using node_at_value [OF left(2)] by simp
    then have nv: "nv < v" using ord by auto
    have "filter (\<lambda>e. snd e < nv) (entries ri) = []"
      using ord nv by (simp add: filter_side [where v = v] less_imp_le)
    then have f: "filter (\<lambda>e. snd e < nv) (entries ?t) = filter (\<lambda>e. snd e < nv) (entries le)"
      using nv by simp
    have ih: "decr_loop rt ?n =
       (if filter (\<lambda>e. snd e < nv) (entries le) = [] then decr_loop rt le
        else Some (Some (fst (last (filter (\<lambda>e. snd e < nv) (entries le))))))"
      using TNode.IH(1) [OF ch(1) pl _ d(1) left(2)] ord by simp
    show ?thesis
    proof (cases "filter (\<lambda>e. snd e < nv) (entries le) = []")
      case True
      obtain la lv ll lp lle lri where le: "le = TNode la lv ll lp lle lri"
        using nvle by (cases le) auto
      have "lv < v" using ord le by auto
      then have "decr_loop rt le = decr_loop rt ?t"
        using le pl ch(3) by simp
      then show ?thesis using ih True f by simp
    next
      case False
      then show ?thesis using ih f by simp
    qed
  qed
qed

text \<open>Below a node with a right child, the next entries are those of that child.\<close>

lemma after_right_child:
  fixes t :: "'a::linorder TNode"
  assumes "sorted_wrt (<) (inorder t)" "node_at t x = Some (TNode b nv nl np nle nri)"
  shows "\<exists>zs. filter (\<lambda>e. nv < snd e) (entries t) = entries nri @ zs"
  using assms
proof (induction t)
  case Null
  then show ?case by simp
next
  case (TNode a v l p le ri)
  let ?n = "TNode b nv nl np nle nri"
  note ord = entries_less [OF TNode.prems(1)]
  consider (top) "x = a" | (left) "x \<noteq> a" "node_at le x = Some ?n"
    | (right) "x \<noteq> a" "node_at le x = None" "node_at ri x = Some ?n"
    using TNode.prems(2) by (auto split: if_splits option.splits)
  then show ?case
  proof cases
    case top
    then have eq: "nv = v" "nri = ri" using TNode.prems(2) by simp_all
    have "filter (\<lambda>e. nv < snd e) (entries le) = []"
      using ord eq by (simp add: filter_side [where v = v] less_imp_le)
    moreover have "filter (\<lambda>e. nv < snd e) (entries ri) = entries ri"
      using ord eq by (simp add: filter_side [where v = v] less_imp_le)
    ultimately show ?thesis using eq by simp
  next
    case left
    have "(x, nv) \<in> set (entries le)" using node_at_value [OF left(2)] by simp
    then have nv: "nv < v" using ord by auto
    have f: "filter (\<lambda>e. nv < snd e) (entries (TNode a v l p le ri)) =
        filter (\<lambda>e. nv < snd e) (entries le) @ (a, v) # entries ri"
      using ord nv by (simp add: filter_side [where v = v] less_imp_le)
    obtain zs where "filter (\<lambda>e. nv < snd e) (entries le) = entries nri @ zs"
      using TNode.IH(1) [OF _ left(2)] ord by blast
    then show ?thesis using f by simp
  next
    case right
    have "(x, nv) \<in> set (entries ri)" using node_at_value [OF right(3)] by simp
    then have nv: "v < nv" using ord by auto
    have "filter (\<lambda>e. nv < snd e) (entries le) = []"
      using ord nv by (simp add: filter_side [where v = v] less_imp_le)
    then have f: "filter (\<lambda>e. nv < snd e) (entries (TNode a v l p le ri)) =
        filter (\<lambda>e. nv < snd e) (entries ri)"
      using nv by simp
    obtain zs where "filter (\<lambda>e. nv < snd e) (entries ri) = entries nri @ zs"
      using TNode.IH(2) [OF _ right(3)] ord by blast
    then show ?thesis using f by simp
  qed
qed

lemma before_left_child:
  fixes t :: "'a::linorder TNode"
  assumes "sorted_wrt (<) (inorder t)" "node_at t x = Some (TNode b nv nl np nle nri)"
  shows "\<exists>zs. filter (\<lambda>e. snd e < nv) (entries t) = zs @ entries nle"
  using assms
proof (induction t)
  case Null
  then show ?case by simp
next
  case (TNode a v l p le ri)
  let ?n = "TNode b nv nl np nle nri"
  note ord = entries_less [OF TNode.prems(1)]
  consider (top) "x = a" | (left) "x \<noteq> a" "node_at le x = Some ?n"
    | (right) "x \<noteq> a" "node_at le x = None" "node_at ri x = Some ?n"
    using TNode.prems(2) by (auto split: if_splits option.splits)
  then show ?case
  proof cases
    case top
    then have eq: "nv = v" "nle = le" using TNode.prems(2) by simp_all
    have "filter (\<lambda>e. snd e < nv) (entries ri) = []"
      using ord eq by (simp add: filter_side [where v = v] less_imp_le)
    moreover have "filter (\<lambda>e. snd e < nv) (entries le) = entries le"
      using ord eq by (simp add: filter_side [where v = v] less_imp_le)
    ultimately show ?thesis using eq by simp
  next
    case right
    have "(x, nv) \<in> set (entries ri)" using node_at_value [OF right(3)] by simp
    then have nv: "v < nv" using ord by auto
    have f: "filter (\<lambda>e. snd e < nv) (entries (TNode a v l p le ri)) =
        entries le @ (a, v) # filter (\<lambda>e. snd e < nv) (entries ri)"
      using ord nv by (simp add: filter_side [where v = v] less_imp_le)
    obtain zs where "filter (\<lambda>e. snd e < nv) (entries ri) = zs @ entries nle"
      using TNode.IH(2) [OF _ right(3)] ord by blast
    then show ?thesis using f by simp
  next
    case left
    have "(x, nv) \<in> set (entries le)" using node_at_value [OF left(2)] by simp
    then have nv: "nv < v" using ord by auto
    have "filter (\<lambda>e. snd e < nv) (entries ri) = []"
      using ord nv by (simp add: filter_side [where v = v] less_imp_le)
    then have f: "filter (\<lambda>e. snd e < nv) (entries (TNode a v l p le ri)) =
        filter (\<lambda>e. snd e < nv) (entries le)"
      using nv by simp
    obtain zs where "filter (\<lambda>e. snd e < nv) (entries le) = zs @ entries nle"
      using TNode.IH(1) [OF _ left(2)] ord by blast
    then show ?thesis using f by simp
  qed
qed

text \<open>In a list ascending in the second component, the entries above and below a position.\<close>

lemma filter_sorted_position:
  fixes es :: "(addr \<times> 'a::linorder) list"
  assumes "sorted_wrt (<) (map snd es)" "i < length es"
  shows "filter (\<lambda>e. snd (es ! i) < snd e) es = drop (Suc i) es"
    and "filter (\<lambda>e. snd e < snd (es ! i)) es = take i es"
proof -
  have es: "es = take i es @ es ! i # drop (Suc i) es"
    using assms(2) by (simp add: id_take_nth_drop)
  have "sorted_wrt (<) (map snd (take i es) @ snd (es ! i) # map snd (drop (Suc i) es))"
    using assms(1) es by (metis list.simps(9) map_append)
  then have lo: "\<forall>e\<in>set (take i es). snd e < snd (es ! i)"
    and hi: "\<forall>e\<in>set (drop (Suc i) es). snd (es ! i) < snd e"
    by (auto simp: sorted_wrt_append)
  have a1: "filter (\<lambda>e. snd (es ! i) < snd e) (take i es) = []"
    using lo by (intro filter_none) (auto simp: not_less less_imp_le)
  have a2: "filter (\<lambda>e. snd (es ! i) < snd e) (drop (Suc i) es) = drop (Suc i) es"
    using hi by (intro filter_all) auto
  have b1: "filter (\<lambda>e. snd e < snd (es ! i)) (take i es) = take i es"
    using lo by (intro filter_all) auto
  have b2: "filter (\<lambda>e. snd e < snd (es ! i)) (drop (Suc i) es) = []"
    using hi by (intro filter_none) (auto simp: not_less less_imp_le)
  have "filter (\<lambda>e. snd (es ! i) < snd e) (take i es @ es ! i # drop (Suc i) es) = drop (Suc i) es"
    using a1 a2 by simp
  then show "filter (\<lambda>e. snd (es ! i) < snd e) es = drop (Suc i) es" using es by simp
  have "filter (\<lambda>e. snd e < snd (es ! i)) (take i es @ es ! i # drop (Suc i) es) = take i es"
    using b1 b2 by simp
  then show "filter (\<lambda>e. snd e < snd (es ! i)) es = take i es" using es by simp
qed

subsection \<open>Reachable states\<close>

lemma insert_Set_consistent:
  assumes "consistent S"
  shows "consistent (insert_Set S x)"
    and "set (inorder (Root (insert_Set S x))) = insert x (set (inorder (Root S)))"
proof -
  obtain t sz fr where i: "Insert (Root S) x (Size S, Fresh S) = (t, (sz, fr))"
    by (metis surj_pair)
  have S': "insert_Set S x = \<lparr>Root = t, Size = sz, Fresh = fr\<rparr>"
    using i by (simp add: insert_Set_def)
  have c: "parents_ok None (Root S)" "allocated (Fresh S) (Root S)"
    "sorted_wrt (<) (inorder (Root S))" "Size S = length (inorder (Root S))"
    using assms by (simp_all add: consistent_def)
  have "parents_ok None t"
    using Insert_parents [OF i c(1)] by (cases "Root S") simp_all
  moreover have "allocated fr t" using Insert_allocated [OF i c(2)] by simp
  moreover have io: "sorted_wrt (<) (inorder t) \<and> set (inorder t) = insert x (set (inorder (Root S)))"
    using Insert_inorder [OF i c(3)] .
  moreover have "sz = length (inorder t)" using Insert_size [OF i] c(4) by simp
  ultimately show "consistent (insert_Set S x)"
    by (simp add: consistent_def S')
  show "set (inorder (Root (insert_Set S x))) = insert x (set (inorder (Root S)))"
    using io by (simp add: S')
qed

lemma erase_Set_consistent:
  assumes "consistent S"
  shows "\<exists>S'. erase_Set S x = Some S' \<and> consistent S' \<and>
           set (inorder (Root S')) = set (inorder (Root S)) - {x}"
proof -
  have c: "parents_ok None (Root S)" "allocated (Fresh S) (Root S)"
    "sorted_wrt (<) (inorder (Root S))" "Size S = length (inorder (Root S))"
    using assms by (simp_all add: consistent_def)
  obtain t sz fr where e: "Erase (Root S) x (Size S, Fresh S) = Some (t, (sz, fr))"
    and i: "erased None (Root S) x (Size S) (Fresh S) t sz fr"
    using Erase_invariants [OF c(1,2,3)] by blast
  have S': "erase_Set S x = Some \<lparr>Root = t, Size = sz, Fresh = fr\<rparr>"
    using e by (simp add: erase_Set_def)
  have "consistent \<lparr>Root = t, Size = sz, Fresh = fr\<rparr>"
    using i c(4) by (simp add: consistent_def erased_def)
  moreover have "set (inorder t) = set (inorder (Root S)) - {x}"
    using i by (simp add: erased_def)
  ultimately show ?thesis using S' by simp
qed

lemma reachable_consistent: "reachable S \<Longrightarrow> consistent S"
proof (induction rule: reachable.induct)
  case (reach_default fr)
  show ?case by (simp add: consistent_def Set_default_def allocated_def)
next
  case (reach_insert S x)
  then show ?case by (simp add: insert_Set_consistent)
next
  case (reach_erase S x S')
  then show ?case using erase_Set_consistent [of S x] by auto
qed

text \<open>On a reachable set, \<^verbatim>\<open>erase\<close> never runs into undefined behaviour.\<close>

lemma erase_Set_defined: "reachable S \<Longrightarrow> \<exists>S'. erase_Set S x = Some S' \<and> reachable S'"
  using erase_Set_consistent [OF reachable_consistent, of S x] reach_erase by blast

subsection \<open>Iterator steps by sorted position\<close>

lemma entries_nth:
  "i < length (entries t) \<Longrightarrow> entries t ! i = (addrs t ! i, inorder t ! i)"
  by (simp add: addrs_def inorder_entries prod_eq_iff)

lemma length_addrs [simp]: "length (addrs t) = length (entries t)"
  by (simp add: addrs_def)

lemma length_inorder [simp]: "length (inorder t) = length (entries t)"
  by (simp add: inorder_entries)

lemma node_at_position:
  assumes "distinct (addrs t)" "i < length (entries t)"
  shows "\<exists>l p le ri. node_at t (addrs t ! i) = Some (TNode (addrs t ! i) (inorder t ! i) l p le ri)"
proof -
  have "(addrs t ! i, inorder t ! i) \<in> set (entries t)"
    using assms(2) entries_nth [OF assms(2)] by (metis nth_mem)
  then show ?thesis using node_at_entry [OF assms(1)] by blast
qed

lemma incr_loop_root:
  assumes "parents_ok None rt" "sorted_wrt (<) (inorder rt)" "distinct (addrs rt)"
    and "node_at rt x = Some (TNode b nv nl np nle Null)"
  shows "incr_loop rt (TNode b nv nl np nle Null) =
     Some (case filter (\<lambda>e. nv < snd e) (entries rt) of [] \<Rightarrow> None | e # es \<Rightarrow> Some (fst e))"
proof -
  have "rt \<noteq> Null" using assms(4) by auto
  then obtain a v l le ri where rt: "rt = TNode a v l None le ri"
    using assms(1) by (cases rt) auto
  have "incr_loop rt rt = Some None" unfolding rt by simp
  then show ?thesis
    using incr_loop_up [OF sits_in_refl assms] by (simp split: list.splits)
qed

lemma decr_loop_root:
  assumes "parents_ok None rt" "sorted_wrt (<) (inorder rt)" "distinct (addrs rt)"
    and "node_at rt x = Some (TNode b nv nl np Null nri)"
  shows "decr_loop rt (TNode b nv nl np Null nri) =
     Some (if filter (\<lambda>e. snd e < nv) (entries rt) = [] then None
           else Some (fst (last (filter (\<lambda>e. snd e < nv) (entries rt)))))"
proof -
  have "rt \<noteq> Null" using assms(4) by auto
  then obtain a v l le ri where rt: "rt = TNode a v l None le ri"
    using assms(1) by (cases rt) auto
  have "decr_loop rt rt = Some None" unfolding rt by simp
  then show ?thesis
    using decr_loop_up [OF sits_in_refl assms] by simp
qed

lemma operator_incr_position:
  assumes "consistent S" "i < length (entries (Root S))"
  shows "operator_incr S (iter_at this S i) =
     Some (if Suc i < length (entries (Root S)) then iter_at this S (Suc i) else end_Set this)"
proof -
  let ?rt = "Root S" and ?es = "entries (Root S)"
  have c: "parents_ok None ?rt" "distinct (addrs ?rt)" "sorted_wrt (<) (inorder ?rt)"
    using assms(1) by (simp_all add: consistent_def allocated_def)
  obtain l p le ri where n: "node_at ?rt (addrs ?rt ! i) =
      Some (TNode (addrs ?rt ! i) (inorder ?rt ! i) l p le ri)"
    using node_at_position [OF c(2) assms(2)] by blast
  have srt: "sorted_wrt (<) (map snd ?es)" using c(3) by (simp add: inorder_entries)
  have nv: "inorder ?rt ! i = snd (?es ! i)" using entries_nth [OF assms(2)] by simp
  have f: "filter (\<lambda>e. inorder ?rt ! i < snd e) ?es = drop (Suc i) ?es"
    using filter_sorted_position(1) [OF srt assms(2)] nv by simp
  show ?thesis
  proof (cases ri)
    case Null
    have "incr_loop ?rt (TNode (addrs ?rt ! i) (inorder ?rt ! i) l p le Null) =
       Some (case drop (Suc i) ?es of [] \<Rightarrow> None | e # es \<Rightarrow> Some (fst e))"
      using incr_loop_root [OF c(1,3,2)] n Null f by simp
    moreover have "(case drop (Suc i) ?es of [] \<Rightarrow> None | e # es \<Rightarrow> Some (fst e)) =
       (if Suc i < length ?es then Some (addrs ?rt ! Suc i) else None)"
    proof (cases "Suc i < length ?es")
      case True
      then show ?thesis
        using Cons_nth_drop_Suc [OF True] entries_nth [OF True]
        by (metis (no_types, lifting) True fst_conv list.simps(5))
    next
      case False
      then show ?thesis by simp
    qed
    ultimately show ?thesis
      using n Null by (simp add: operator_incr_def iter_at_def end_Set_def)
  next
    case (TNode ra rv rl rp rle rri)
    obtain a' v' l' p' ri' es' where s: "leftmost ri = Some (TNode a' v' l' p' Null ri')"
      "entries ri = (a', v') # es'"
      using leftmost_hd [of ri] TNode by blast
    obtain zs where "filter (\<lambda>e. inorder ?rt ! i < snd e) ?es = entries ri @ zs"
      using after_right_child [OF c(3) n] by blast
    then have d: "drop (Suc i) ?es = (a', v') # es' @ zs" using f s(2) by simp
    then have lt: "Suc i < length ?es"
      by (metis drop_eq_Nil list.distinct(1) not_less)
    have "?es ! Suc i = (a', v')"
      using d Cons_nth_drop_Suc [OF lt] by simp
    then have "addrs ?rt ! Suc i = a'" using entries_nth [OF lt] by simp
    then show ?thesis
      using n TNode s(1) lt by (simp add: operator_incr_def iter_at_def)
  qed
qed

lemma operator_decr_position:
  assumes "consistent S" "i < length (entries (Root S))"
  shows "operator_decr S (iter_at this S i) =
     Some (if i = 0 then end_Set this else iter_at this S (i - 1))"
proof -
  let ?rt = "Root S" and ?es = "entries (Root S)"
  have c: "parents_ok None ?rt" "distinct (addrs ?rt)" "sorted_wrt (<) (inorder ?rt)"
    using assms(1) by (simp_all add: consistent_def allocated_def)
  obtain l p le ri where n: "node_at ?rt (addrs ?rt ! i) =
      Some (TNode (addrs ?rt ! i) (inorder ?rt ! i) l p le ri)"
    using node_at_position [OF c(2) assms(2)] by blast
  have srt: "sorted_wrt (<) (map snd ?es)" using c(3) by (simp add: inorder_entries)
  have nv: "inorder ?rt ! i = snd (?es ! i)" using entries_nth [OF assms(2)] by simp
  have f: "filter (\<lambda>e. snd e < inorder ?rt ! i) ?es = take i ?es"
    using filter_sorted_position(2) [OF srt assms(2)] nv by simp
  have lst: "fst (last (take i ?es)) = addrs ?rt ! (i - 1)" if "0 < i"
  proof -
    have "take i ?es \<noteq> []" using that assms(2) by auto
    then have "last (take i ?es) = take i ?es ! (i - 1)"
      using assms(2) that by (simp add: last_conv_nth min_def)
    also have "\<dots> = ?es ! (i - 1)" using that by simp
    finally show ?thesis using entries_nth [of "i - 1" ?rt] assms(2) by simp
  qed
  show ?thesis
  proof (cases le)
    case Null
    have "decr_loop ?rt (TNode (addrs ?rt ! i) (inorder ?rt ! i) l p Null ri) =
       Some (if take i ?es = [] then None else Some (fst (last (take i ?es))))"
      using decr_loop_root [OF c(1,3,2)] n Null f by simp
    moreover have "(if take i ?es = [] then None else Some (fst (last (take i ?es)))) =
       (if i = 0 then None else Some (addrs ?rt ! (i - 1)))"
      using lst assms(2) by auto
    ultimately show ?thesis
      using n Null by (simp add: operator_decr_def iter_at_def end_Set_def)
  next
    case (TNode la lv ll lp lle lri)
    obtain a' v' l' p' le' es' where s: "rightmost le = Some (TNode a' v' l' p' le' Null)"
      "entries le = es' @ [(a', v')]"
      using rightmost_last [of le] TNode by blast
    obtain zs where "filter (\<lambda>e. snd e < inorder ?rt ! i) ?es = zs @ entries le"
      using before_left_child [OF c(3) n] by blast
    then have d: "take i ?es = (zs @ es') @ [(a', v')]" using f s(2) by simp
    then have pos: "0 < i" by (cases i) auto
    have "last (take i ?es) = (a', v')" using d by (metis last_snoc)
    then have "addrs ?rt ! (i - 1) = a'" using lst [OF pos] by simp
    then show ?thesis
      using n TNode s(1) pos by (simp add: operator_decr_def iter_at_def)
  qed
qed

lemma operator_decr_end:
  assumes "consistent S"
  shows "operator_decr S (end_Set this) =
     Some (if length (entries (Root S)) = 0 then end_Set this
           else iter_at this S (length (entries (Root S)) - 1))"
proof (cases "Root S")
  case Null
  then show ?thesis by (simp add: operator_decr_def end_Set_def)
next
  case (TNode a v l p le ri)
  obtain a' v' l' p' le' es' where s: "rightmost (Root S) = Some (TNode a' v' l' p' le' Null)"
    "entries (Root S) = es' @ [(a', v')]"
    using rightmost_last [of "Root S"] TNode by auto
  have "addrs (Root S) ! (length (entries (Root S)) - 1) = a'"
    using s(2) by (simp add: addrs_def nth_append)
  then have "iter_at this S (length (entries (Root S)) - 1) =
      \<lparr>Set_ptr = this, IteratorNode = Some a'\<rparr>"
    by (simp add: iter_at_def)
  then show ?thesis
    using s(1) TNode by (simp add: operator_decr_def end_Set_def)
qed

lemma begin_Set_position:
  "begin_Set this S =
     Some (if length (entries (Root S)) = 0 then end_Set this else iter_at this S 0)"
proof (cases "Root S")
  case Null
  then show ?thesis by (simp add: begin_Set_def)
next
  case (TNode a v l p le ri)
  obtain a' v' l' p' ri' es' where s: "leftmost (Root S) = Some (TNode a' v' l' p' Null ri')"
    "entries (Root S) = (a', v') # es'"
    using leftmost_hd [of "Root S"] TNode by auto
  have "addrs (Root S) ! 0 = a'"
    using s(2) by (simp add: addrs_def)
  then have "iter_at this S 0 = \<lparr>Set_ptr = this, IteratorNode = Some a'\<rparr>"
    by (simp add: iter_at_def)
  then show ?thesis
    using s(1) TNode by (simp add: begin_Set_def)
qed

lemma operator_star_position:
  assumes "consistent S" "i < length (entries (Root S))"
  shows "operator_star S (iter_at this S i) = Some (inorder (Root S) ! i)"
proof -
  have "distinct (addrs (Root S))" using assms(1) by (simp add: consistent_def allocated_def)
  then obtain l p le ri where "node_at (Root S) (addrs (Root S) ! i) =
      Some (TNode (addrs (Root S) ! i) (inorder (Root S) ! i) l p le ri)"
    using node_at_position [OF _ assms(2)] by blast
  then show ?thesis by (simp add: operator_star_def iter_at_def)
qed

subsection \<open>lower_bound and find\<close>

lemma rightmost_node_at:
  "rightmost t = Some m \<Longrightarrow> distinct (addrs t) \<Longrightarrow>
   \<exists>a v l p le. m = TNode a v l p le Null \<and> node_at t a = Some m"
proof (induction t rule: rightmost.induct)
  case 1
  then show ?case by simp
next
  case (2 a v l p le)
  then show ?case by auto
next
  case (3 a v l p le ra rv rl rp rle rri)
  let ?r = "TNode ra rv rl rp rle rri"
  have d: "distinct (addrs ?r)" "a \<notin> set (addrs ?r)" "set (addrs le) \<inter> set (addrs ?r) = {}"
    using 3(3) by auto
  obtain a' v' l' p' le' where m: "m = TNode a' v' l' p' le' Null" "node_at ?r a' = Some m"
    using 3(1) [OF _ d(1)] 3(2) by auto
  have in_r: "a' \<in> set (addrs ?r)" using node_at_Some [OF m(2)] by simp
  then have "a' \<noteq> a" "a' \<notin> set (addrs le)" using d by auto
  then have "node_at (TNode a v l p le ?r) a' = Some m"
    using m(2) by (simp add: node_at_None)
  then show ?case using m(1) by blast
qed

text \<open>The entries that are not below the wanted value.\<close>

lemma ge_none:
  fixes v :: "'a::linorder"
  assumes "\<forall>b y. (b, y) \<in> set es \<longrightarrow> y < v" "v \<le> w"
  shows "filter (\<lambda>e. \<not> snd e < w) es = []"
proof (rule filter_none, rule ballI)
  fix e assume e: "e \<in> set es"
  have "snd e < v" using assms(1) e by (metis prod.collapse)
  then show "\<not> \<not> snd e < w" using assms(2) by simp
qed

lemma ge_all:
  fixes v :: "'a::linorder"
  assumes "\<forall>b y. (b, y) \<in> set es \<longrightarrow> v < y" "w \<le> v"
  shows "filter (\<lambda>e. \<not> snd e < w) es = es"
proof (rule filter_all, rule ballI)
  fix e assume e: "e \<in> set es"
  have "v < snd e" using assms(1) e by (metis prod.collapse)
  then show "\<not> snd e < w" using assms(2) by simp
qed

lemma lower_bound_loop_spec:
  assumes S: "consistent S"
    and t: "sits_in (Root S) t" "parents_ok q t" "sorted_wrt (<) (inorder t)"
      "distinct (addrs t)" "t \<noteq> Null"
  shows "lower_bound_loop this S t w =
     (case filter (\<lambda>e. \<not> snd e < w) (entries t) of
        e # es \<Rightarrow> Some \<lparr>Set_ptr = this, IteratorNode = Some (fst e)\<rparr>
      | [] \<Rightarrow> (case rightmost t of
                 None \<Rightarrow> None
               | Some m \<Rightarrow> operator_incr S \<lparr>Set_ptr = this, IteratorNode = ptr m\<rparr>))"
  using t
proof (induction t arbitrary: q)
  case Null
  then show ?case by simp
next
  case (TNode a v l p le ri)
  let ?t = "TNode a v l p le ri"
  let ?ge = "\<lambda>t. filter (\<lambda>e. \<not> snd e < w) (entries t)"
  note ord = entries_less [OF TNode.prems(3)]
  note ch = sits_in_children [OF TNode.prems(1,4)]
  have d: "distinct (addrs le)" "distinct (addrs ri)"
    using TNode.prems(4) by auto
  have pl: "parents_ok (Some a) le" and pr: "parents_ok (Some a) ri"
    using TNode.prems(2) by auto
  show ?case
  proof (cases "v < w")
    case True
    have gl: "?ge le = []" using ord True by (simp add: ge_none [where v = v] less_imp_le)
    have g: "?ge ?t = ?ge ri" using gl True by simp
    show ?thesis
    proof (cases ri)
      case Null
      then show ?thesis using True g by simp
    next
      case r: (TNode ra rv rl rp rle rri)
      have "lower_bound_loop this S ?t w = lower_bound_loop this S ri w"
        using True r by simp
      also have "\<dots> = (case ?ge ri of
          e # es \<Rightarrow> Some \<lparr>Set_ptr = this, IteratorNode = Some (fst e)\<rparr>
        | [] \<Rightarrow> (case rightmost ri of None \<Rightarrow> None
                 | Some m \<Rightarrow> operator_incr S \<lparr>Set_ptr = this, IteratorNode = ptr m\<rparr>))"
        using TNode.IH(2) [OF ch(2) pr _ d(2)] ord r by simp
      finally have lb: "lower_bound_loop this S ?t w = (case ?ge ri of
          e # es \<Rightarrow> Some \<lparr>Set_ptr = this, IteratorNode = Some (fst e)\<rparr>
        | [] \<Rightarrow> (case rightmost ri of None \<Rightarrow> None
                 | Some m \<Rightarrow> operator_incr S \<lparr>Set_ptr = this, IteratorNode = ptr m\<rparr>))" .
      have rm: "rightmost ?t = rightmost ri" using r by simp
      show ?thesis by (simp only: lb g rm)
    qed
  next
    case False
    have gr: "?ge ri = entries ri" using ord False by (simp add: ge_all [where v = v])
    have g: "?ge ?t = ?ge le @ (a, v) # entries ri" using gr False by simp
    show ?thesis
    proof (cases le)
      case Null
      then show ?thesis using False g by simp
    next
      case lf: (TNode la lv ll lp lle lri)
      show ?thesis
      proof (cases "w < v")
        case w: True
        have "lower_bound_loop this S ?t w = lower_bound_loop this S le w"
          using False w lf by simp
        also have ih: "\<dots> = (case ?ge le of
            e # es \<Rightarrow> Some \<lparr>Set_ptr = this, IteratorNode = Some (fst e)\<rparr>
          | [] \<Rightarrow> (case rightmost le of None \<Rightarrow> None
                   | Some m \<Rightarrow> operator_incr S \<lparr>Set_ptr = this, IteratorNode = ptr m\<rparr>))"
          using TNode.IH(1) [OF ch(1) pl _ d(1)] ord lf by simp
        finally have lb: "lower_bound_loop this S ?t w = (case ?ge le of
            e # es \<Rightarrow> Some \<lparr>Set_ptr = this, IteratorNode = Some (fst e)\<rparr>
          | [] \<Rightarrow> (case rightmost le of None \<Rightarrow> None
                   | Some m \<Rightarrow> operator_incr S \<lparr>Set_ptr = this, IteratorNode = ptr m\<rparr>))" .
        show ?thesis
        proof (cases "?ge le")
          case Nil
          obtain m where rm: "rightmost le = Some m"
            using rightmost_last [of le] lf by auto
          obtain a' v' l' p' le' where m: "m = TNode a' v' l' p' le' Null" "node_at le a' = Some m"
            using rightmost_node_at [OF rm d(1)] by blast
          have in_le: "a' \<in> set (addrs le)" "(a', v') \<in> set (entries le)"
            using node_at_Some [OF m(2)] node_at_value [of le a' a' v' l' p' le' Null] m by auto
          have at_rt: "node_at (Root S) a' = Some m"
            using ch(1) in_le(1) m(2) by (simp add: sits_in_def)
          have at_t: "node_at ?t a' = Some (TNode a' v' l' p' le' Null)"
            using in_le(1) m TNode.prems(4) by auto
          have v': "v' < v" using ord in_le(2) by auto
          have last: "\<forall>b y. (b, y) \<in> set (entries le) \<longrightarrow> y \<le> v'"
          proof -
            obtain es a'' v'' l'' p'' le'' where e: "rightmost le = Some (TNode a'' v'' l'' p'' le'' Null)"
              "entries le = es @ [(a'', v'')]"
              using rightmost_last [of le] lf by auto
            then have "v'' = v'" using rm m(1) by simp
            moreover have "sorted_wrt (<) (map snd es @ [v''])"
              using ord e(2) by (simp add: inorder_entries)
            ultimately show ?thesis using e(2) by (fastforce simp: sorted_wrt_append)
          qed
          have "filter (\<lambda>e. v' < snd e) (entries le) = []"
          proof (rule filter_none, rule ballI)
            fix e assume "e \<in> set (entries le)"
            then have "snd e \<le> v'" using last by (metis prod.collapse)
            then show "\<not> v' < snd e" by simp
          qed
          then have "filter (\<lambda>e. v' < snd e) (entries ?t) = (a, v) # entries ri"
            using ord v' by (simp add: gt_all [where v = v] less_imp_le)
          then have "incr_loop (Root S) (TNode a' v' l' p' le' Null) = Some (Some a)"
            using incr_loop_up [OF TNode.prems(1,2,3,4) at_t] by simp
          then have "operator_incr S \<lparr>Set_ptr = this, IteratorNode = ptr m\<rparr> =
              Some \<lparr>Set_ptr = this, IteratorNode = Some a\<rparr>"
            using at_rt m(1) by (simp add: operator_incr_def)
          then show ?thesis using lb Nil rm g by simp
        next
          case (Cons e es)
          then show ?thesis using lb g by simp
        qed
      next
        case w: False
        then have "w = v" using False by simp
        then have "?ge le = []" using ord by (simp add: ge_none [where v = v])
        then show ?thesis using False w lf g by simp
      qed
    qed
  qed
qed

lemma lower_bound_spec:
  assumes "consistent S"
  shows "lower_bound this S w =
     Some (case filter (\<lambda>e. \<not> snd e < w) (entries (Root S)) of
             [] \<Rightarrow> end_Set this
           | e # es \<Rightarrow> \<lparr>Set_ptr = this, IteratorNode = Some (fst e)\<rparr>)"
proof (cases "Root S = Null")
  case True
  then show ?thesis by (simp add: lower_bound_def end_Set_def)
next
  case False
  have c: "parents_ok None (Root S)" "distinct (addrs (Root S))" "sorted_wrt (<) (inorder (Root S))"
    using assms by (simp_all add: consistent_def allocated_def)
  obtain a' v' l' p' le' es' where s: "rightmost (Root S) = Some (TNode a' v' l' p' le' Null)"
    "entries (Root S) = es' @ [(a', v')]"
    using rightmost_last [OF False] by blast
  let ?n = "length (entries (Root S))"
  have n: "?n = Suc (length es')" using s(2) by simp
  have "addrs (Root S) ! (?n - 1) = a'"
    using s(2) by (simp add: addrs_def nth_append)
  then have "\<lparr>Set_ptr = this, IteratorNode = Some a'\<rparr> = iter_at this S (?n - 1)"
    by (simp add: iter_at_def)
  then have "operator_incr S \<lparr>Set_ptr = this, IteratorNode = Some a'\<rparr> = Some (end_Set this)"
    using operator_incr_position [OF assms, of "?n - 1" this] n by simp
  then have last: "(case rightmost (Root S) of None \<Rightarrow> None
      | Some m \<Rightarrow> operator_incr S \<lparr>Set_ptr = this, IteratorNode = ptr m\<rparr>) = Some (end_Set this)"
    using s(1) by simp
  show ?thesis
    unfolding lower_bound_def
      lower_bound_loop_spec [OF assms sits_in_refl c(1) c(3) c(2) False] last
    by (simp split: list.splits)
qed

lemma find_filter_hd:
  "find P xs = (case filter P xs of [] \<Rightarrow> None | x # ys \<Rightarrow> Some x)"
  by (induction xs) auto

lemma filter_map_snd:
  "filter P (map snd es) = map snd (filter (\<lambda>e. P (snd e)) es)"
  by (induction es) auto

lemma operator_star_entry:
  assumes "consistent S" "e \<in> set (entries (Root S))"
  shows "operator_star S \<lparr>Set_ptr = this, IteratorNode = Some (fst e)\<rparr> = Some (snd e)"
proof -
  have "distinct (addrs (Root S))" using assms(1) by (simp add: consistent_def allocated_def)
  then obtain l p le ri where "node_at (Root S) (fst e) = Some (TNode (fst e) (snd e) l p le ri)"
    using node_at_entry [of "Root S" "fst e" "snd e"] assms(2) by auto
  then show ?thesis by (simp add: operator_star_def)
qed

lemma lower_bound_value:
  assumes "consistent S"
  shows "\<exists>it. lower_bound this S w = Some it \<and> Set_ptr it = this \<and>
     (case find (\<lambda>y. w \<le> y) (inorder (Root S)) of
        None \<Rightarrow> it = end_Set this
      | Some y \<Rightarrow> operator_star S it = Some y)"
proof -
  let ?f = "filter (\<lambda>e. \<not> snd e < w) (entries (Root S))"
  have fi: "find (\<lambda>y. w \<le> y) (inorder (Root S)) =
      (case ?f of [] \<Rightarrow> None | e # es \<Rightarrow> Some (snd e))"
    by (simp add: find_filter_hd inorder_entries filter_map_snd not_less split: list.splits)
  show ?thesis
  proof (cases ?f)
    case Nil
    then show ?thesis
      using lower_bound_spec [OF assms, of this w] fi by (simp add: end_Set_def)
  next
    case (Cons e es)
    then have "e \<in> set (entries (Root S))"
      by (metis filter_is_subset list.set_intros(1) subsetD)
    then show ?thesis
      using lower_bound_spec [OF assms, of this w] fi Cons operator_star_entry [OF assms]
      by simp
  qed
qed

lemma find_Set_spec:
  assumes "consistent S"
  shows "\<exists>it. find_Set this S w = Some it \<and>
     (if w \<in> set (inorder (Root S))
      then operator_star S it = Some w \<and> Set_ptr it = this \<and> operator_neq it (end_Set this)
      else it = end_Set this)"
proof -
  let ?f = "filter (\<lambda>e. \<not> snd e < w) (entries (Root S))"
  have srt: "sorted_wrt (<) (map snd (entries (Root S)))"
    using assms by (simp add: consistent_def inorder_entries)
  show ?thesis
  proof (cases ?f)
    case Nil
    then have "\<forall>e\<in>set (entries (Root S)). snd e < w"
      by (simp add: filter_empty_conv)
    then have "w \<notin> set (inorder (Root S))"
      by (auto simp: inorder_entries)
    moreover have "find_Set this S w = Some (end_Set this)"
      using lower_bound_spec [OF assms, of this w] Nil
      by (simp add: find_Set_def operator_neq_def)
    ultimately show ?thesis by simp
  next
    case (Cons e es)
    have "e \<in> set ?f" using Cons by simp
    then have e: "e \<in> set (entries (Root S))" "\<not> snd e < w"
      by simp_all
    have lb: "lower_bound this S w = Some \<lparr>Set_ptr = this, IteratorNode = Some (fst e)\<rparr>"
      using lower_bound_spec [OF assms, of this w] Cons by simp
    have st: "operator_star S \<lparr>Set_ptr = this, IteratorNode = Some (fst e)\<rparr> = Some (snd e)"
      using operator_star_entry [OF assms e(1)] .
    have ne: "operator_neq \<lparr>Set_ptr = this, IteratorNode = Some (fst e)\<rparr> (end_Set this)"
      by (simp add: operator_neq_def end_Set_def)
    have "sorted_wrt (<) (map snd (e # es))"
      using sorted_wrt_filter [OF srt [unfolded sorted_wrt_map]] Cons
      by (metis sorted_wrt_map)
    then have least: "\<forall>x\<in>set es. snd e < snd x" by simp
    have mem: "w \<in> set (inorder (Root S)) \<longleftrightarrow> snd e = w"
    proof
      assume "w \<in> set (inorder (Root S))"
      then obtain x where x: "x \<in> set (entries (Root S))" "snd x = w"
        by (auto simp: inorder_entries)
      then have "x \<in> set (e # es)" using Cons [symmetric] by simp
      then have "snd e \<le> w" using least x(2) by auto
      then show "snd e = w" using e(2) by simp
    next
      assume "snd e = w"
      then show "w \<in> set (inorder (Root S))"
        using e(1) by (force simp: inorder_entries)
    qed
    show ?thesis
    proof (cases "snd e = w")
      case True
      then have "find_Set this S w = Some \<lparr>Set_ptr = this, IteratorNode = Some (fst e)\<rparr>"
        using lb st ne by (simp add: find_Set_def)
      then show ?thesis using mem True st ne by simp
    next
      case False
      then have "snd e < w \<or> w < snd e" by auto
      then have "find_Set this S w = Some (end_Set this)"
        using lb st ne by (auto simp: find_Set_def)
      then show ?thesis using mem False by simp
    qed
  qed
qed

subsection \<open>Sizes and programs\<close>

lemma strictly_ascending_unique:
  fixes xs :: "'a::linorder list"
  assumes "sorted_wrt (<) xs" "sorted_wrt (<) ys" "set xs = set ys"
  shows "xs = ys"
  using assms by (simp add: strict_sorted_iff sorted_distinct_set_unique)

lemma length_ascending:
  fixes xs :: "'a::linorder list"
  shows "sorted_wrt (<) xs \<Longrightarrow> length xs = card (set xs)"
  by (simp add: strict_sorted_iff distinct_card)

lemma count_nodes_inorder: "count_nodes t = length (inorder t)"
  by (induction t) auto

lemma insert_Set_size:
  assumes "consistent S"
  shows "Size (insert_Set S x) = Size S + (if x \<in> set (inorder (Root S)) then 0 else 1)"
proof -
  have c: "consistent (insert_Set S x)"
    and s: "set (inorder (Root (insert_Set S x))) = insert x (set (inorder (Root S)))"
    using insert_Set_consistent [OF assms] by simp_all
  have "Size (insert_Set S x) = card (insert x (set (inorder (Root S))))"
    using c s length_ascending [of "inorder (Root (insert_Set S x))"]
    by (simp add: consistent_def)
  moreover have "Size S = card (set (inorder (Root S)))"
    using assms length_ascending [of "inorder (Root S)"] by (simp add: consistent_def)
  ultimately show ?thesis by (simp add: card_insert_if)
qed

lemma erase_Set_size:
  assumes "consistent S" "erase_Set S x = Some S'"
  shows "Size S' + (if x \<in> set (inorder (Root S)) then 1 else 0) = Size S"
proof -
  have c: "consistent S'"
    and s: "set (inorder (Root S')) = set (inorder (Root S)) - {x}"
    using erase_Set_consistent [OF assms(1), of x] assms(2) by simp_all
  have "Size S' = card (set (inorder (Root S)) - {x})"
    using c s length_ascending [of "inorder (Root S')"]
    by (simp add: consistent_def)
  moreover have "Size S = card (set (inorder (Root S)))"
    using assms length_ascending [of "inorder (Root S)"] by (simp add: consistent_def)
  moreover have "0 < card (set (inorder (Root S)))" if "x \<in> set (inorder (Root S))"
    using that by (auto simp: card_gt_0_iff)
  ultimately show ?thesis
    by (cases "x \<in> set (inorder (Root S))") auto
qed

lemma run_counts:
  "run cs S0 = Some S \<Longrightarrow> consistent S0 \<Longrightarrow>
   consistent S \<and> Size S + real_erases cs S0 = Size S0 + new_inserts cs S0"
proof (induction cs arbitrary: S0)
  case Nil
  then show ?case by simp
next
  case (Cons c cs)
  show ?case
  proof (cases c)
    case (Ins x)
    have "consistent (insert_Set S0 x)" using Cons.prems(2) insert_Set_consistent by blast
    then show ?thesis
      using Cons.IH [of "insert_Set S0 x"] Cons.prems Ins insert_Set_size [OF Cons.prems(2), of x]
      by auto
  next
    case (Del x)
    obtain S1 where S1: "erase_Set S0 x = Some S1" "consistent S1"
      using erase_Set_consistent [OF Cons.prems(2)] by blast
    then show ?thesis
      using Cons.IH [of S1] Cons.prems Del erase_Set_size [OF Cons.prems(2) S1(1)]
      by auto
  qed
qed

lemma run_append: "run (cs @ ds) S0 = (case run cs S0 of None \<Rightarrow> None | Some S \<Rightarrow> run ds S)"
proof (induction cs arbitrary: S0)
  case Nil
  then show ?case by simp
next
  case (Cons c cs)
  then show ?case by (cases c) (auto split: option.splits)
qed

lemma run_reachable: "run cs S0 = Some S \<Longrightarrow> reachable S0 \<Longrightarrow> reachable S"
proof (induction cs arbitrary: S0)
  case Nil
  then show ?case by simp
next
  case (Cons c cs)
  then show ?case
    by (cases c) (auto split: option.splits intro: reach_insert reach_erase)
qed

lemma reachable_run: "reachable S \<Longrightarrow> \<exists>cs fr. run cs (Set_default fr) = Some S"
proof (induction rule: reachable.induct)
  case (reach_default fr)
  have "run [] (Set_default fr) = Some (Set_default fr)" by simp
  then show ?case by blast
next
  case (reach_insert S x)
  then obtain cs fr where "run cs (Set_default fr) = Some S" by blast
  then have "run (cs @ [Ins x]) (Set_default fr) = Some (insert_Set S x)"
    by (simp add: run_append)
  then show ?case by blast
next
  case (reach_erase S x S')
  then obtain cs fr where "run cs (Set_default fr) = Some S" by blast
  then have "run (cs @ [Del x]) (Set_default fr) = Some S'"
    using reach_erase(2) by (simp add: run_append)
  then show ?case by blast
qed

lemma example_set_reachable: "reachable example_set"
  unfolding example_set_def by (intro reach_insert reach_default)

lemma example_set_value:
  "example_set = \<lparr>Root = TNode 3 3 2 None (TNode 4 1 1 (Some 3) Null Null)
       (TNode 2 5 1 (Some 3) Null (TNode 5 8 1 (Some 2) Null Null)), Size = 4, Fresh = 6\<rparr>"
  by (simp add: example_set_def insert_Set_def Set_default_def)

subsection \<open>Level rules and balance after \<^verbatim>\<open>erase\<close>\<close>

lemma height_bound_7: "height_bound 7 = 6"
proof -
  have "log 2 (8::real) = 3"
    using log_nat_power [of 2 2 3] by simp
  then show ?thesis
    by (simp add: height_bound_def)
qed

text \<open>
  Claim C1. After every public mutation the AA-tree level rules hold at every node: an
  absent subtree counts as level 0, a leaf has level 1, a left child is exactly one level
  below its parent, a right child is at its parent's level or one below, and no right
  grandchild is at the node's level.
  The code does not keep them: \<^verbatim>\<open>DecreaseLevel\<close> does nothing when a child is absent, so
  after inserting 1, 2, 3 and erasing 1 the root still has level 2 over an absent left
  subtree. The theorem evaluates the code there.
\<close>

theorem C1_levels_broken_after_erase:
  "map_option levels_ok (run [Ins 1, Ins 2, Ins 3, Del 1] (Set_default 0 :: nat Set)) = Some False"
  by code_simp

text \<open>
  Claim C2. In every reachable state the height of the tree is at most the ceiling of
  \<open>2 * log\<^sub>2 (size + 1)\<close>.
  The code does not keep the bound, for the same reason as in C1: a node that loses a
  child keeps its level, so the rotations that would rebalance do not fire. Inserting 1
  to 22 in ascending order and erasing fifteen of the values leaves 7 nodes in a chain of
  height 7, counted in nodes, above the bound 6.
\<close>

theorem C2_height_bound_broken_after_erase:
  "map_option height_ok
     (run (map Ins [1..<23] @ map Del [1, 3, 2, 5, 7, 6, 4, 9, 11, 10, 13, 15, 14, 17, 19])
        (Set_default 0 :: nat Set)) = Some False"
proof -
  have "map_option (\<lambda>S. (height (Root S), Size S))
     (run (map Ins [1..<23] @ map Del [1, 3, 2, 5, 7, 6, 4, 9, 11, 10, 13, 15, 14, 17, 19])
        (Set_default 0 :: nat Set)) = Some (7, 7)"
    by code_simp
  then show ?thesis
    by (auto simp: height_ok_def size_Set_def height_bound_7)
qed

subsection \<open>Order and parent pointers in every reachable state\<close>

text \<open>
  Claim C3. In every reachable state the in-order traversal of the tree is strictly
  ascending and has no duplicates: no two nodes hold the same value.
\<close>

theorem C3_inorder_strictly_ascending:
  "reachable S \<Longrightarrow> sorted_wrt (<) (inorder (Root S)) \<and> distinct (inorder (Root S))"
proof -
  assume "reachable S"
  then have "sorted_wrt (<) (inorder (Root S))"
    using reachable_consistent by (auto simp: consistent_def)
  then show ?thesis
    by (simp add: strict_sorted_iff)
qed

theorem C3_witness:
  "reachable example_set \<and> inorder (Root example_set) = [1, 3, 5, 8] \<and>
   sorted_wrt (<) (inorder (Root example_set)) \<and> distinct (inorder (Root example_set))"
  using C3_inorder_strictly_ascending [OF example_set_reachable] example_set_reachable
  by (simp add: example_set_value)

text \<open>
  Claim C4. After every public mutation the parent pointers agree with the owning child
  pointers: the root has no parent, and each child of a node points back to that node.
  Such a pointer designates one node only, because live nodes have different addresses.
\<close>

theorem C4_parent_pointers_consistent:
  "reachable S \<Longrightarrow> parents_ok None (Root S) \<and> distinct (addrs (Root S))"
  using reachable_consistent [of S] by (simp add: consistent_def allocated_def)

theorem C4_witness:
  "reachable example_set \<and>
   Root example_set = TNode 3 3 2 None (TNode 4 1 1 (Some 3) Null Null)
       (TNode 2 5 1 (Some 3) Null (TNode 5 8 1 (Some 2) Null Null)) \<and>
   parents_ok None (Root example_set) \<and> distinct (addrs (Root example_set))"
  using C4_parent_pointers_consistent [OF example_set_reachable] example_set_reachable
  by (simp add: example_set_value)

subsection \<open>Iterators\<close>

text \<open>
  Claim C5. In a reachable set of size \<open>n\<close>, the iterator at the sorted position
  \<open>i < n\<close> (it dereferences to the \<open>i\<close>-th value in order) is moved by \<^verbatim>\<open>++\<close> to
  position \<open>i + 1\<close>, or to \<^verbatim>\<open>end()\<close> when \<open>i = n - 1\<close>, and \<^verbatim>\<open>--\<close> on the result gives
  the iterator at position \<open>i\<close> again: \<^verbatim>\<open>--(++it) == it\<close>. No step is undefined.
\<close>

theorem C5_iterator_symmetry:
  assumes "reachable S" "i < size_Set S"
  shows "operator_star S (iter_at this S i) = Some (inorder (Root S) ! i) \<and>
         operator_incr S (iter_at this S i) =
           Some (if i + 1 < size_Set S then iter_at this S (i + 1) else end_Set this) \<and>
         map_option (\<lambda>r. operator_eq r (iter_at this S i))
           (Option.bind (operator_incr S (iter_at this S i)) (operator_decr S)) = Some True"
proof -
  have c: "consistent S" using assms(1) by (rule reachable_consistent)
  then have n: "size_Set S = length (entries (Root S))"
    by (simp add: consistent_def size_Set_def)
  have i: "i < length (entries (Root S))" using assms(2) n by simp
  have inc: "operator_incr S (iter_at this S i) =
      Some (if i + 1 < size_Set S then iter_at this S (i + 1) else end_Set this)"
    using operator_incr_position [OF c i] n by simp
  have "Option.bind (operator_incr S (iter_at this S i)) (operator_decr S) =
      Some (iter_at this S i)"
  proof (cases "i + 1 < size_Set S")
    case True
    then show ?thesis
      using inc operator_decr_position [OF c, of "i + 1" this] n by simp
  next
    case False
    then have "length (entries (Root S)) - 1 = i" "length (entries (Root S)) \<noteq> 0"
      using i n by auto
    then show ?thesis
      using inc False operator_decr_end [OF c, of this] by simp
  qed
  then show ?thesis
    using inc operator_star_position [OF c i] by (simp add: operator_eq_def)
qed

theorem C5_witness:
  "reachable example_set \<and> size_Set example_set = 4 \<and>
   inorder (Root example_set) = [1, 3, 5, 8] \<and> 3 < size_Set example_set \<and>
   (operator_star example_set (iter_at 0 example_set 3) = Some (inorder (Root example_set) ! 3) \<and>
    operator_incr example_set (iter_at 0 example_set 3) =
      Some (if 3 + 1 < size_Set example_set then iter_at 0 example_set (3 + 1) else end_Set 0) \<and>
    map_option (\<lambda>r. operator_eq r (iter_at 0 example_set 3))
      (Option.bind (operator_incr example_set (iter_at 0 example_set 3))
         (operator_decr example_set)) = Some True)"
proof -
  have s: "size_Set example_set = 4" "inorder (Root example_set) = [1, 3, 5, 8]"
    by (simp_all add: example_set_value size_Set_def)
  have b: "3 < size_Set example_set"
    using s by simp
  show ?thesis
    using C5_iterator_symmetry [OF example_set_reachable b, of 0] example_set_reachable s b
    by blast
qed

text \<open>
  Claim C10. In a reachable set that is not empty, decrementing the iterator \<^verbatim>\<open>begin()\<close>
  gives a defined result, equal to the end sentinel: the loop climbs the left spine and
  steps to the absent parent of the root, and reads no pointer that is null or dangling.
\<close>

theorem C10_decrement_begin_is_end:
  assumes "reachable S" "\<not> empty_Set S"
  shows "map_option (\<lambda>r. operator_eq r (end_Set this))
           (Option.bind (begin_Set this S) (operator_decr S)) = Some True"
proof -
  have c: "consistent S" using assms(1) by (rule reachable_consistent)
  then have n: "0 < length (entries (Root S))"
    using assms(2) by (simp add: consistent_def empty_Set_def)
  have "begin_Set this S = Some (iter_at this S 0)"
    using begin_Set_position [of this S] n by simp
  then show ?thesis
    using operator_decr_position [OF c n, of this] by (simp add: operator_eq_def)
qed

theorem C10_witness:
  "reachable example_set \<and> \<not> empty_Set example_set \<and>
   Option.bind (begin_Set 0 example_set) (operator_star example_set) = Some 1 \<and>
   Option.bind (begin_Set 0 example_set) (operator_decr example_set) = Some (end_Set 0) \<and>
   map_option (\<lambda>r. operator_eq r (end_Set 0))
     (Option.bind (begin_Set 0 example_set) (operator_decr example_set)) = Some True"
proof -
  have e: "\<not> empty_Set example_set"
    by (simp add: example_set_value empty_Set_def)
  have b: "begin_Set 0 example_set = Some \<lparr>Set_ptr = 0, IteratorNode = Some 4\<rparr>"
    by (simp add: example_set_value begin_Set_def)
  have s: "operator_star example_set \<lparr>Set_ptr = 0, IteratorNode = Some 4\<rparr> = Some 1"
    by (simp add: example_set_value operator_star_def)
  show ?thesis
    using C10_decrement_begin_is_end [OF example_set_reachable e, of 0] example_set_reachable
      e b s
    by (auto simp: operator_eq_def end_Set_def)
qed

subsection \<open>Queries\<close>

text \<open>
  Claim C6. In a reachable set \<open>S\<close>, \<^verbatim>\<open>lower_bound(w)\<close> returns an iterator of the set
  that dereferences to the first value in sorted order that is not below \<open>w\<close>, or
  \<^verbatim>\<open>end()\<close> if there is none. In particular, in a reachable set \<open>T\<close> holding 1, 3, 5 and 8,
  \<^verbatim>\<open>lower_bound(4)\<close> points to 5, \<^verbatim>\<open>lower_bound(9)\<close> is \<^verbatim>\<open>end()\<close> and \<^verbatim>\<open>lower_bound(0)\<close>
  points to 1.
\<close>

theorem C6_lower_bound:
  assumes "reachable S" "reachable T" "inorder (Root T) = [1, 3, 5, 8 :: nat]"
  shows "(\<exists>it. lower_bound this S w = Some it \<and> Set_ptr it = this \<and>
            (case find (\<lambda>y. w \<le> y) (inorder (Root S)) of
               None \<Rightarrow> it = end_Set this
             | Some y \<Rightarrow> operator_star S it = Some y)) \<and>
         Option.bind (lower_bound this T 4) (operator_star T) = Some 5 \<and>
         lower_bound this T 9 = Some (end_Set this) \<and>
         Option.bind (lower_bound this T 0) (operator_star T) = Some 1"
proof -
  have cS: "consistent S" using assms(1) by (rule reachable_consistent)
  have cT: "consistent T" using assms(2) by (rule reachable_consistent)
  have "Option.bind (lower_bound this T 4) (operator_star T) = Some 5"
    using lower_bound_value [OF cT, of this 4] assms(3) by auto
  moreover have "lower_bound this T 9 = Some (end_Set this)"
    using lower_bound_value [OF cT, of this 9] assms(3) by auto
  moreover have "Option.bind (lower_bound this T 0) (operator_star T) = Some 1"
    using lower_bound_value [OF cT, of this 0] assms(3) by auto
  ultimately show ?thesis
    using lower_bound_value [OF cS, of this w] by blast
qed

theorem C6_witness:
  "reachable example_set \<and> inorder (Root example_set) = [1, 3, 5, 8] \<and>
   lower_bound 0 example_set 4 = Some \<lparr>Set_ptr = 0, IteratorNode = Some 2\<rparr> \<and>
   find (\<lambda>y. 4 \<le> y) (inorder (Root example_set)) = Some 5 \<and>
   Option.bind (lower_bound 0 example_set 4) (operator_star example_set) = Some 5 \<and>
   lower_bound 0 example_set 9 = Some (end_Set 0) \<and>
   Option.bind (lower_bound 0 example_set 0) (operator_star example_set) = Some 1"
proof -
  have i: "inorder (Root example_set) = [1, 3, 5, 8]"
    by (simp add: example_set_value)
  have l: "lower_bound 0 example_set 4 = Some \<lparr>Set_ptr = 0, IteratorNode = Some 2\<rparr>"
    by (simp add: example_set_value lower_bound_def)
  show ?thesis
    using C6_lower_bound [OF example_set_reachable example_set_reachable i, of 0 4]
      example_set_reachable i l
    by simp
qed

subsection \<open>Size, absent values and round trips\<close>

text \<open>
  Claim C7. After any program of \<^verbatim>\<open>insert\<close> and \<^verbatim>\<open>erase\<close> calls on an empty set (these
  are the reachable sets), \<^verbatim>\<open>size()\<close> is the number of nodes reachable from the root, and
  it is the number of \<^verbatim>\<open>insert\<close> calls whose value was new minus the number of \<^verbatim>\<open>erase\<close>
  calls whose value was present: a duplicate \<^verbatim>\<open>insert\<close> and an \<^verbatim>\<open>erase\<close> of an absent
  value do not count.
\<close>

theorem C7_size_consistency:
  assumes "run cs (Set_default fr) = Some S"
  shows "size_Set S = count_nodes (Root S) \<and>
         real_erases cs (Set_default fr) \<le> new_inserts cs (Set_default fr) \<and>
         size_Set S = new_inserts cs (Set_default fr) - real_erases cs (Set_default fr)"
proof -
  have d: "consistent (Set_default fr :: 'a Set)"
    by (simp add: consistent_def Set_default_def allocated_def)
  have "consistent S \<and>
      Size S + real_erases cs (Set_default fr) =
      Size (Set_default fr :: 'a Set) + new_inserts cs (Set_default fr)"
    using run_counts [OF assms d] .
  then have "Size S = count_nodes (Root S)"
    and "Size S + real_erases cs (Set_default fr) = new_inserts cs (Set_default fr)"
    by (simp_all add: consistent_def count_nodes_inorder Set_default_def)
  then show ?thesis
    unfolding size_Set_def by linarith
qed

theorem C7_witness:
  "run [Ins 5, Ins 5, Del 7, Ins 3, Del 5] (Set_default 0 :: nat Set) =
     Some \<lparr>Root = TNode 2 3 1 None Null Null, Size = 1, Fresh = 4\<rparr> \<and>
   new_inserts [Ins 5, Ins 5, Del 7, Ins 3, Del 5] (Set_default 0 :: nat Set) = 2 \<and>
   real_erases [Ins 5, Ins 5, Del 7, Ins 3, Del 5] (Set_default 0 :: nat Set) = 1 \<and>
   size_Set \<lparr>Root = TNode 2 (3::nat) 1 None Null Null, Size = 1, Fresh = 4\<rparr> =
     count_nodes (TNode 2 (3::nat) 1 None Null Null) \<and>
   size_Set \<lparr>Root = TNode 2 (3::nat) 1 None Null Null, Size = 1, Fresh = 4\<rparr> = 2 - 1"
proof -
  have r: "run [Ins 5, Ins 5, Del 7, Ins 3, Del 5] (Set_default 0 :: nat Set) =
     Some \<lparr>Root = TNode 2 3 1 None Null Null, Size = 1, Fresh = 4\<rparr>"
    by code_simp
  have n: "new_inserts [Ins 5, Ins 5, Del 7, Ins 3, Del 5] (Set_default 0 :: nat Set) = 2"
    by code_simp
  have e: "real_erases [Ins 5, Ins 5, Del 7, Ins 3, Del 5] (Set_default 0 :: nat Set) = 1"
    by code_simp
  show ?thesis
    using C7_size_consistency [OF r] r n e by simp
qed

text \<open>
  Claim C8. In every reachable set: \<^verbatim>\<open>erase\<close> of a value \<open>x\<close> that is absent changes
  neither the size nor the in-order sequence, and \<^verbatim>\<open>find\<close> of it returns \<^verbatim>\<open>end()\<close>;
  \<^verbatim>\<open>insert\<close> of a value \<open>y\<close> that is present changes neither the size nor the in-order
  sequence; inserting any value twice leaves the size and the sequence of inserting it
  once; \<^verbatim>\<open>lower_bound\<close> of a \<open>w\<close> with no value at or above it returns \<^verbatim>\<open>end()\<close>. Each
  part holds under its own condition only, and \<^verbatim>\<open>erase\<close>, \<^verbatim>\<open>find\<close> and \<^verbatim>\<open>lower_bound\<close>
  return normally for every argument \<open>u\<close>.
\<close>

theorem C8_absence_is_not_an_error:
  assumes "reachable S"
  shows "(x \<notin> set (inorder (Root S)) \<longrightarrow>
            map_option (\<lambda>S'. (size_Set S', inorder (Root S'))) (erase_Set S x) =
              Some (size_Set S, inorder (Root S)) \<and>
            find_Set this S x = Some (end_Set this)) \<and>
         (y \<in> set (inorder (Root S)) \<longrightarrow>
            (size_Set (insert_Set S y), inorder (Root (insert_Set S y))) =
              (size_Set S, inorder (Root S))) \<and>
         (size_Set (insert_Set (insert_Set S z) z), inorder (Root (insert_Set (insert_Set S z) z))) =
           (size_Set (insert_Set S z), inorder (Root (insert_Set S z))) \<and>
         ((\<forall>v\<in>set (inorder (Root S)). v < w) \<longrightarrow> lower_bound this S w = Some (end_Set this)) \<and>
         erase_Set S u \<noteq> None \<and> find_Set this S u \<noteq> None \<and> lower_bound this S u \<noteq> None"
proof -
  have c: "consistent S" using assms(1) by (rule reachable_consistent)
  have same: "inorder (Root T) = inorder (Root U)"
    if "consistent T" "consistent U" "set (inorder (Root T)) = set (inorder (Root U))"
    for T U :: "'a Set"
    using that strictly_ascending_unique by (auto simp: consistent_def)
  have 1: "map_option (\<lambda>S'. (size_Set S', inorder (Root S'))) (erase_Set S x) =
             Some (size_Set S, inorder (Root S)) \<and>
           find_Set this S x = Some (end_Set this)"
    if x: "x \<notin> set (inorder (Root S))"
  proof -
    obtain S' where e: "erase_Set S x = Some S'" "consistent S'"
      "set (inorder (Root S')) = set (inorder (Root S)) - {x}"
      using erase_Set_consistent [OF c] by blast
    have "inorder (Root S') = inorder (Root S)"
      using same [OF e(2) c] e(3) x by simp
    moreover have "size_Set S' = size_Set S"
      using erase_Set_size [OF c e(1)] x by (simp add: size_Set_def)
    moreover have "find_Set this S x = Some (end_Set this)"
      using find_Set_spec [OF c, of this x] x by auto
    ultimately show ?thesis using e(1) by simp
  qed
  have dup: "(size_Set (insert_Set T k), inorder (Root (insert_Set T k))) =
           (size_Set T, inorder (Root T))"
    if "consistent T" "k \<in> set (inorder (Root T))" for T :: "'a Set" and k
  proof -
    have "set (inorder (Root (insert_Set T k))) = set (inorder (Root T))"
      using insert_Set_consistent(2) [OF that(1), of k] that(2) by auto
    then have "inorder (Root (insert_Set T k)) = inorder (Root T)"
      using same [OF insert_Set_consistent(1) [OF that(1)] that(1)] by simp
    then show ?thesis
      using insert_Set_size [OF that(1), of k] that(2) by (simp add: size_Set_def)
  qed
  have 2: "(size_Set (insert_Set S y), inorder (Root (insert_Set S y))) =
           (size_Set S, inorder (Root S))"
    if "y \<in> set (inorder (Root S))"
    using dup [OF c that] .
  have 3: "(size_Set (insert_Set (insert_Set S z) z), inorder (Root (insert_Set (insert_Set S z) z))) =
           (size_Set (insert_Set S z), inorder (Root (insert_Set S z)))"
    using dup [OF insert_Set_consistent(1) [OF c, of z]] insert_Set_consistent(2) [OF c, of z]
    by simp
  have 4: "lower_bound this S w = Some (end_Set this)"
    if w: "\<forall>v\<in>set (inorder (Root S)). v < w"
  proof -
    have "find (\<lambda>y. w \<le> y) (inorder (Root S)) = None"
      using w by (auto simp: find_None_iff)
    then show ?thesis
      using lower_bound_value [OF c, of this w] by auto
  qed
  have 5: "erase_Set S u \<noteq> None"
    using erase_Set_consistent [OF c, of u] by auto
  have 6: "find_Set this S u \<noteq> None"
    using find_Set_spec [OF c, of this u] by auto
  have 7: "lower_bound this S u \<noteq> None"
    using lower_bound_value [OF c, of this u] by auto
  show ?thesis using 1 2 3 4 5 6 7 by blast
qed

theorem C8_witness:
  "reachable example_set \<and> 4 \<notin> set (inorder (Root example_set)) \<and>
   5 \<in> set (inorder (Root example_set)) \<and> list_all (\<lambda>v. v < 9) (inorder (Root example_set)) \<and>
   size_Set example_set = 4 \<and> inorder (Root example_set) = [1, 3, 5, 8] \<and>
   map_option (\<lambda>S'. (size_Set S', inorder (Root S'))) (erase_Set example_set 4) =
     Some (4, [1, 3, 5, 8]) \<and>
   find_Set 0 example_set 4 = Some (end_Set 0) \<and>
   (size_Set (insert_Set example_set 5), inorder (Root (insert_Set example_set 5))) =
     (4, [1, 3, 5, 8]) \<and>
   (size_Set (insert_Set (insert_Set example_set 4) 4),
    inorder (Root (insert_Set (insert_Set example_set 4) 4))) =
     (size_Set (insert_Set example_set 4), inorder (Root (insert_Set example_set 4))) \<and>
   lower_bound 0 example_set 9 = Some (end_Set 0) \<and>
   erase_Set example_set 3 \<noteq> None \<and> find_Set 0 example_set 3 \<noteq> None \<and>
   lower_bound 0 example_set 3 \<noteq> None \<and>
   reachable (Set_default 0 :: nat Set) \<and>
   7 \<notin> set (inorder (Root (Set_default 0 :: nat Set))) \<and>
   map_option (\<lambda>S'. (size_Set S', inorder (Root S'))) (erase_Set (Set_default 0 :: nat Set) 7) =
     Some (0, []) \<and>
   find_Set 0 (Set_default 0 :: nat Set) 7 = Some (end_Set 0) \<and>
   lower_bound 0 (Set_default 0 :: nat Set) 7 = Some (end_Set 0)"
proof -
  have s: "size_Set example_set = 4" "inorder (Root example_set) = [1, 3, 5, 8]"
    by (simp_all add: example_set_value size_Set_def)
  have h: "4 \<notin> set (inorder (Root example_set))" "5 \<in> set (inorder (Root example_set))"
    "\<forall>v\<in>set (inorder (Root example_set)). v < 9"
    using s by simp_all
  have r: "reachable (Set_default 0 :: nat Set)" by (rule reach_default)
  have d: "size_Set (Set_default 0 :: nat Set) = 0" "inorder (Root (Set_default 0 :: nat Set)) = []"
    by (simp_all add: Set_default_def size_Set_def)
  have a: "reachable example_set \<and> 4 \<notin> set (inorder (Root example_set)) \<and>
   5 \<in> set (inorder (Root example_set)) \<and> list_all (\<lambda>v. v < 9) (inorder (Root example_set)) \<and>
   size_Set example_set = 4 \<and> inorder (Root example_set) = [1, 3, 5, 8] \<and>
   map_option (\<lambda>S'. (size_Set S', inorder (Root S'))) (erase_Set example_set 4) =
     Some (4, [1, 3, 5, 8]) \<and>
   find_Set 0 example_set 4 = Some (end_Set 0) \<and>
   (size_Set (insert_Set example_set 5), inorder (Root (insert_Set example_set 5))) =
     (4, [1, 3, 5, 8]) \<and>
   (size_Set (insert_Set (insert_Set example_set 4) 4),
    inorder (Root (insert_Set (insert_Set example_set 4) 4))) =
     (size_Set (insert_Set example_set 4), inorder (Root (insert_Set example_set 4))) \<and>
   lower_bound 0 example_set 9 = Some (end_Set 0) \<and>
   erase_Set example_set 3 \<noteq> None \<and> find_Set 0 example_set 3 \<noteq> None \<and>
   lower_bound 0 example_set 3 \<noteq> None"
    using C8_absence_is_not_an_error [OF example_set_reachable, of 4 0 5 4 9 3]
      example_set_reachable h s
    by (simp add: list_all_iff)
  have b: "reachable (Set_default 0 :: nat Set) \<and>
   7 \<notin> set (inorder (Root (Set_default 0 :: nat Set))) \<and>
   map_option (\<lambda>S'. (size_Set S', inorder (Root S'))) (erase_Set (Set_default 0 :: nat Set) 7) =
     Some (0, []) \<and>
   find_Set 0 (Set_default 0 :: nat Set) 7 = Some (end_Set 0) \<and>
   lower_bound 0 (Set_default 0 :: nat Set) 7 = Some (end_Set 0)"
    using C8_absence_is_not_an_error [OF r, of 7 0 7 7 7 7] r d
    by simp
  show ?thesis using a b by blast
qed

text \<open>
  Claim C9. In a reachable set, \<^verbatim>\<open>find(v)\<close> after \<^verbatim>\<open>insert(v)\<close> returns an iterator that
  dereferences to \<open>v\<close>, and \<^verbatim>\<open>find(v)\<close> after \<^verbatim>\<open>erase(v)\<close> returns \<^verbatim>\<open>end()\<close>.
\<close>

theorem C9_round_trip:
  assumes "reachable S"
  shows "Option.bind (find_Set this (insert_Set S v) v) (operator_star (insert_Set S v)) = Some v \<and>
         Option.bind (erase_Set S v) (\<lambda>S'. find_Set this S' v) = Some (end_Set this)"
proof -
  have c: "consistent S" using assms by (rule reachable_consistent)
  have i: "consistent (insert_Set S v)" "v \<in> set (inorder (Root (insert_Set S v)))"
    using insert_Set_consistent [OF c, of v] by simp_all
  have 1: "Option.bind (find_Set this (insert_Set S v) v) (operator_star (insert_Set S v)) = Some v"
    using find_Set_spec [OF i(1), of this v] i(2) by auto
  obtain S' where e: "erase_Set S v = Some S'" "consistent S'"
    "set (inorder (Root S')) = set (inorder (Root S)) - {v}"
    using erase_Set_consistent [OF c] by blast
  have "find_Set this S' v = Some (end_Set this)"
    using find_Set_spec [OF e(2), of this v] e(3) by auto
  then show ?thesis using 1 e(1) by simp
qed

theorem C9_witness:
  "reachable example_set \<and>
   find_Set 0 (insert_Set example_set 3) 3 = Some \<lparr>Set_ptr = 0, IteratorNode = Some 3\<rparr> \<and>
   Option.bind (find_Set 0 (insert_Set example_set 3) 3)
     (operator_star (insert_Set example_set 3)) = Some 3 \<and>
   map_option (\<lambda>S'. inorder (Root S')) (erase_Set example_set 3) = Some [1, 5, 8] \<and>
   Option.bind (erase_Set example_set 3) (\<lambda>S'. find_Set 0 S' 3) = Some (end_Set 0)"
proof -
  have f: "find_Set 0 (insert_Set example_set 3) 3 = Some \<lparr>Set_ptr = 0, IteratorNode = Some 3\<rparr>"
    unfolding example_set_def by code_simp
  have e: "map_option (\<lambda>S'. inorder (Root S')) (erase_Set example_set 3) = Some [1, 5, 8]"
    unfolding example_set_def by code_simp
  show ?thesis
    using C9_round_trip [OF example_set_reachable, of 0 3] example_set_reachable f e
    by simp
qed

end
